theory Spec2Isabelle
  imports Main "HOL-Library.AList" "HOL-Library.Sublist"
begin

section \<open>JavaScript strings\<close>

text \<open>
  The store (lib/store.js) works on JavaScript strings. A HOL \<open>char\<close> carries one code
  unit in the range U+0000 .. U+00FF, so the model covers the strings over that range;
  the built-ins \<open>trim\<close>, \<open>toLowerCase\<close>, \<open>includes\<close> and \<open>JSON.stringify\<close> are written
  out for it as ECMAScript defines them.
\<close>

text \<open>WhiteSpace and LineTerminator code units below U+0100: TAB, LF, VT, FF, CR, SP, NBSP.\<close>

definition isWhiteSpace :: "char \<Rightarrow> bool" where
  "isWhiteSpace c = ((of_char c :: nat) \<in> {9, 10, 11, 12, 13, 32, 160})"

text \<open>\<open>String.prototype.trim\<close>: strip white space at both ends.\<close>

definition trim :: "string \<Rightarrow> string" where
  "trim s = rev (dropWhile isWhiteSpace (rev (dropWhile isWhiteSpace s)))"

text \<open>
  \<open>String.prototype.toLowerCase\<close>: A .. Z and the upper-case letters U+00C0 .. U+00DE
  (the multiplication sign U+00D7 apart) move up by 32; every other code unit stays.
\<close>

definition toLowerCase_char :: "char \<Rightarrow> char" where
  "toLowerCase_char c =
     (let n = (of_char c :: nat)
      in if (65 \<le> n \<and> n \<le> 90) \<or> (192 \<le> n \<and> n \<le> 222 \<and> n \<noteq> 215)
         then char_of (n + 32) else c)"

definition toLowerCase :: "string \<Rightarrow> string" where
  "toLowerCase s = map toLowerCase_char s"

text \<open>
  \<open>s.includes(sub)\<close>, named \<open>includes_str\<close> since \<open>includes\<close> is a keyword of Isabelle:
  \<open>sub\<close> occurs in \<open>s\<close> as a contiguous run, searched from the left.
\<close>

fun includes_str :: "string \<Rightarrow> string \<Rightarrow> bool" where
  "includes_str [] sub = (sub = [])"
| "includes_str (c # cs) sub = (prefix sub (c # cs) \<or> includes_str cs sub)"

subsection \<open>JSON.stringify on strings\<close>

definition hexDigit :: "nat \<Rightarrow> char" where
  "hexDigit n = ''0123456789abcdef'' ! n"

text \<open>
  QuoteJSONString, one code unit: the short escapes for backspace, tab, line feed, form
  feed, carriage return, the double quote and the backslash; \<open>\u00XX\<close> for the other code
  units below U+0020; the code unit itself otherwise.
\<close>

definition quoteChar :: "char \<Rightarrow> string" where
  "quoteChar c =
     (let n = (of_char c :: nat)
      in if n = 8 then [CHR 0x5C, CHR ''b'']
         else if n = 9 then [CHR 0x5C, CHR ''t'']
         else if n = 10 then [CHR 0x5C, CHR ''n'']
         else if n = 12 then [CHR 0x5C, CHR ''f'']
         else if n = 13 then [CHR 0x5C, CHR ''r'']
         else if n = 34 then [CHR 0x5C, CHR 0x22]
         else if n = 92 then [CHR 0x5C, CHR 0x5C]
         else if n < 32 then
           [CHR 0x5C, CHR ''u'', CHR ''0'', CHR ''0'', hexDigit (n div 16), hexDigit (n mod 16)]
         else [c])"

definition quoteJSONString :: "string \<Rightarrow> string" where
  "quoteJSONString s = CHR 0x22 # concat (map quoteChar s) @ [CHR 0x22]"

text \<open>
  \<open>getCacheKey(filters) = JSON.stringify(filters)\<close>, called on the object literal
  \<open>{ status, q }\<close>: the two properties in this order, no white space.
\<close>

definition getCacheKey :: "string \<Rightarrow> string \<Rightarrow> string" where
  \<open>getCacheKey status q =
     ''{"status":'' @ quoteJSONString status @ '',"q":'' @ quoteJSONString q @ ''}''\<close>

section \<open>Data model\<close>

text \<open>
  A todo object. The field \<open>id\<close> of the source is \<open>id_num\<close> here (\<open>id\<close> is the identity
  function of HOL). Identifiers are JavaScript numbers that hold the values the counter
  had, so they are natural numbers. \<open>createdAt\<close> is the ISO string of the clock at
  creation.
\<close>

record todo =
  id_num :: nat
  title :: string
  description :: string
  completed :: bool
  createdAt :: string

text \<open>
  The store hands out references: the arrays returned by \<open>getTodos\<close> are kept in the
  cache, and their elements are the very objects of the collection, which \<open>toggleTodo\<close>
  and \<open>bulkToggleTodos\<close> mutate in place. So objects and arrays live in a heap; a
  reference is an index into it, and allocation appends. An array that the store keeps no
  reference to (the results of the bulk operations, the intermediate results of
  \<open>filter\<close>) is a plain list.
\<close>

type_synonym ref = nat

record store =
  objs :: "todo list"
  arrs :: "ref list list"
  todos :: ref
  idCounter :: nat
  queryCache :: "(string \<times> ref) list"

text \<open>
  \<open>queryCache\<close> is a JavaScript \<open>Map\<close>: an association list in insertion order.
  \<open>Map.prototype.set\<close> replaces the value of a present key where it stands and appends
  an absent key (\<open>AList.update\<close>); \<open>Map.prototype.delete\<close> is \<open>AList.delete\<close>;
  \<open>has\<close> and \<open>get\<close> are \<open>map_of\<close>.
\<close>

definition CACHE_SIZE_LIMIT :: nat where
  "CACHE_SIZE_LIMIT = 50"

text \<open>Module initialisation: \<open>let todos = []; let idCounter = 1; queryCache = new Map()\<close>.\<close>

definition init_store :: store where
  "init_store = \<lparr>objs = [], arrs = [[]], todos = 0, idCounter = 1, queryCache = []\<rparr>"

datatype error = Error string

definition ValidationError :: error where
  "ValidationError = Error ''Title is required''"

definition todosArr :: "store \<Rightarrow> ref list" where
  "todosArr s = arrs s ! todos s"

definition deref :: "store \<Rightarrow> ref \<Rightarrow> todo" where
  "deref s r = objs s ! r"

text \<open>What a caller sees when it reads the array behind a reference: the objects, by value.\<close>

definition view :: "store \<Rightarrow> ref \<Rightarrow> todo list" where
  "view s a = map (deref s) (arrs s ! a)"

text \<open>The record collection, by value.\<close>

definition records :: "store \<Rightarrow> todo list" where
  "records s = map (deref s) (todosArr s)"

section \<open>Operations of the store\<close>

definition clearCache :: "store \<Rightarrow> store" where
  "clearCache s = s\<lparr>queryCache := []\<rparr>"

text \<open>\<open>Array.prototype.findIndex\<close>; \<open>None\<close> is the source's \<open>-1\<close>.\<close>

fun findIndex :: "('a \<Rightarrow> bool) \<Rightarrow> 'a list \<Rightarrow> nat option" where
  "findIndex P [] = None"
| "findIndex P (x # xs) =
     (if P x then Some 0 else map_option Suc (findIndex P xs))"

subsection \<open>getTodos\<close>

definition status_filter :: "store \<Rightarrow> string \<Rightarrow> ref list \<Rightarrow> ref list" where
  "status_filter s status results =
     (if status \<noteq> ''all''
      then (let isCompleted = (status = ''completed'')
            in filter (\<lambda>r. completed (deref s r) = isCompleted) results)
      else results)"

definition search_filter :: "store \<Rightarrow> string \<Rightarrow> ref list \<Rightarrow> ref list" where
  "search_filter s q results =
     (if q \<noteq> []
      then (let query = toLowerCase q
            in filter (\<lambda>r. includes_str (toLowerCase (title (deref s r))) query \<or>
                            (description (deref s r) \<noteq> [] \<and>
                             includes_str (toLowerCase (description (deref s r))) query))
                 results)
      else results)"

text \<open>Lines 54 to 58: when the cache is at its bound, the first key of the Map goes.\<close>

definition evict :: "(string \<times> ref) list \<Rightarrow> (string \<times> ref) list" where
  "evict c =
     (if length c \<ge> CACHE_SIZE_LIMIT
      then (case c of [] \<Rightarrow> c | (firstKey, _) # _ \<Rightarrow> AList.delete firstKey c)
      else c)"

text \<open>
  \<open>getTodos({ status, q })\<close>, both strings (an omitted property takes its default,
  \<open>"all"\<close> and \<open>""\<close>). A hit returns the cached array itself. A miss allocates
  \<open>finalResults\<close>, stores the reference in the cache and returns the same reference.
\<close>

definition getTodos :: "store \<Rightarrow> string \<Rightarrow> string \<Rightarrow> store \<times> ref" where
  "getTodos s status q =
     (let cacheKey = getCacheKey status q
      in case map_of (queryCache s) cacheKey of
           Some cached \<Rightarrow> (s, cached)
         | None \<Rightarrow>
             (let results = search_filter s q (status_filter s status (todosArr s));
                  finalResults = length (arrs s);
                  s1 = s\<lparr>arrs := arrs s @ [results]\<rparr>;
                  s2 = s1\<lparr>queryCache := evict (queryCache s1)\<rparr>;
                  s3 = s2\<lparr>queryCache := AList.update cacheKey finalResults (queryCache s2)\<rparr>
              in (s3, finalResults)))"

subsection \<open>createTodo\<close>

text \<open>
  The new value of the counter after \<open>idCounter++\<close>. The counter is a double that holds
  a natural number \<open>n\<close>, and the new value is the double nearest to \<open>n + 1\<close>: below
  \<open>2 ^ 53\<close> that is \<open>n + 1\<close> itself; from \<open>2 ^ 53\<close> to \<open>2 ^ 54\<close> the doubles are the even
  numbers, \<open>n + 1\<close> lies half way between \<open>n\<close> and \<open>n + 2\<close> and the tie goes to the one
  with the even significand; from \<open>2 ^ 54\<close> on \<open>n\<close> is the nearest. So the counter, which
  starts at 1, stops at \<open>2 ^ 53\<close>.
\<close>

definition increment :: "nat \<Rightarrow> nat" where
  "increment n =
     (if n < 2 ^ 53 then n + 1
      else if n < 2 ^ 54 \<and> odd (n div 2) then n + 2
      else n)"

text \<open>
  \<open>createTodo({ title, description })\<close>, both strings (\<open>description\<close> is \<open>""\<close> when it is
  omitted), with the clock's ISO string as \<open>now\<close>. The exception leaves before anything
  is written. \<open>todos.push\<close> writes the collection's array in place.
\<close>

definition createTodo :: "store \<Rightarrow> string \<Rightarrow> string \<Rightarrow> string \<Rightarrow> store \<times> (error + ref)" where
  "createTodo s ttl descr now =
     (let trimmedTitle = trim ttl
      in if trimmedTitle = [] then (s, Inl ValidationError)
         else
           (let newTodo = \<lparr>id_num = idCounter s, title = trimmedTitle,
                           description = (if descr \<noteq> [] then descr else []),
                           completed = False, createdAt = now\<rparr>;
                r = length (objs s);
                s1 = s\<lparr>idCounter := increment (idCounter s), objs := objs s @ [newTodo]\<rparr>;
                s2 = s1\<lparr>arrs := (arrs s1)[todos s1 := todosArr s1 @ [r]]\<rparr>
            in (clearCache s2, Inr r)))"

subsection \<open>updateTodo\<close>

text \<open>
  The \<open>updates\<close> object: each of the three properties is present or absent. The id is a
  number, so \<open>Number(id)\<close> is the id itself. The spread \<open>{ ...todo, ...updates }\<close> builds
  a new object; it enters the heap where line 106 stores it in the collection, so the
  exception of line 101 leaves no trace.
\<close>

record updates =
  u_title :: "string option"
  u_description :: "string option"
  u_completed :: "bool option"

definition spread :: "todo \<Rightarrow> updates \<Rightarrow> todo" where
  "spread t u =
     t\<lparr>title := (case u_title u of None \<Rightarrow> title t | Some x \<Rightarrow> x),
       description := (case u_description u of None \<Rightarrow> description t | Some x \<Rightarrow> x),
       completed := (case u_completed u of None \<Rightarrow> completed t | Some x \<Rightarrow> x)\<rparr>"

definition validateTitle :: "updates \<Rightarrow> todo \<Rightarrow> error + todo" where
  "validateTitle u updatedTodo =
     (case u_title u of
        None \<Rightarrow> Inr updatedTodo
      | Some t \<Rightarrow>
          (let trimmedTitle = trim t
           in if trimmedTitle = [] then Inl ValidationError
              else Inr (updatedTodo\<lparr>title := trimmedTitle\<rparr>)))"

definition updateTodo :: "store \<Rightarrow> nat \<Rightarrow> updates \<Rightarrow> store \<times> (error + ref option)" where
  "updateTodo s i u =
     (case findIndex (\<lambda>r. id_num (deref s r) = i) (todosArr s) of
        None \<Rightarrow> (s, Inr None)
      | Some todoIndex \<Rightarrow>
          (let todo = deref s (todosArr s ! todoIndex)
           in case validateTitle u (spread todo u) of
                Inl e \<Rightarrow> (s, Inl e)
              | Inr updatedTodo \<Rightarrow>
                  (let r = length (objs s);
                       s1 = s\<lparr>objs := objs s @ [updatedTodo]\<rparr>;
                       s2 = s1\<lparr>arrs := (arrs s1)[todos s1 := (todosArr s1)[todoIndex := r]]\<rparr>
                   in (clearCache s2, Inr (Some r)))))"

subsection \<open>toggleTodo and deleteTodo\<close>

text \<open>\<open>todos.find\<close> yields the object itself, and line 119 writes its field in place.\<close>

definition toggleTodo :: "store \<Rightarrow> nat \<Rightarrow> store \<times> ref option" where
  "toggleTodo s i =
     (case find (\<lambda>r. id_num (deref s r) = i) (todosArr s) of
        None \<Rightarrow> (s, None)
      | Some r \<Rightarrow>
          (let s1 = s\<lparr>objs := (objs s)[r := (deref s r)\<lparr>completed := \<not> completed (deref s r)\<rparr>]\<rparr>
           in (clearCache s1, Some r)))"

text \<open>\<open>todos.splice(idx, 1)\<close> removes one element of the collection's array in place.\<close>

definition deleteTodo :: "store \<Rightarrow> nat \<Rightarrow> store \<times> ref option" where
  "deleteTodo s i =
     (case findIndex (\<lambda>r. id_num (deref s r) = i) (todosArr s) of
        None \<Rightarrow> (s, None)
      | Some idx \<Rightarrow>
          (let deletedTodo = todosArr s ! idx;
               s1 = s\<lparr>arrs := (arrs s)[todos s := take idx (todosArr s) @ drop (Suc idx) (todosArr s)]\<rparr>
           in (clearCache s1, Some deletedTodo)))"

subsection \<open>Bulk operations\<close>

text \<open>
  One round of the \<open>forEach\<close> of \<open>bulkToggleTodos\<close>, on the object heap and the
  \<open>updatedTodos\<close> collected so far. \<open>idSet\<close> is the \<open>Set\<close> built from \<open>ids\<close>.
\<close>

definition bulkToggle_step :: "nat set \<Rightarrow> ref \<Rightarrow> todo list \<times> ref list \<Rightarrow> todo list \<times> ref list" where
  "bulkToggle_step idSet r acc =
     (case acc of (os, updatedTodos) \<Rightarrow>
        if id_num (os ! r) \<in> idSet
        then (os[r := (os ! r)\<lparr>completed := \<not> completed (os ! r)\<rparr>], updatedTodos @ [r])
        else (os, updatedTodos))"

definition bulkToggleTodos :: "store \<Rightarrow> nat list \<Rightarrow> store \<times> ref list" where
  "bulkToggleTodos s ids =
     (let idSet = set ids
      in case fold (bulkToggle_step idSet) (todosArr s) (objs s, []) of
           (os, updatedTodos) \<Rightarrow>
             (let s1 = s\<lparr>objs := os\<rparr>
              in (if length updatedTodos > 0 then clearCache s1 else s1, updatedTodos)))"

text \<open>\<open>todos = todos.filter(...)\<close>: a new array, and the variable \<open>todos\<close> moves to it.\<close>

definition bulkDeleteTodos :: "store \<Rightarrow> nat list \<Rightarrow> store \<times> ref list" where
  "bulkDeleteTodos s ids =
     (let idSet = set ids;
          deletedTodos = filter (\<lambda>r. id_num (deref s r) \<in> idSet) (todosArr s);
          kept = filter (\<lambda>r. \<not> id_num (deref s r) \<in> idSet) (todosArr s);
          s1 = s\<lparr>arrs := arrs s @ [kept], todos := length (arrs s)\<rparr>
      in (if length deletedTodos > 0 then clearCache s1 else s1, deletedTodos))"

subsection \<open>getTodoStats and clearAllTodos\<close>

record stats =
  total :: nat
  active :: nat
  completed_count :: nat

definition getTodoStats :: "store \<Rightarrow> stats" where
  "getTodoStats s =
     fold (\<lambda>r st. if completed (deref s r)
                   then st\<lparr>completed_count := completed_count st + 1\<rparr>
                   else st\<lparr>active := active st + 1\<rparr>)
       (todosArr s) \<lparr>total = length (todosArr s), active = 0, completed_count = 0\<rparr>"

definition clearAllTodos :: "store \<Rightarrow> store \<times> nat" where
  "clearAllTodos s =
     (let count = length (todosArr s);
          s1 = s\<lparr>arrs := arrs s @ [[]], todos := length (arrs s), idCounter := 1\<rparr>
      in (clearCache s1, count))"

section \<open>Histories of calls\<close>

text \<open>
  The exported functions, as the calls a client of the module can make. A state is
  reachable when a history of calls leads to it from the initial state; exceptions and
  not-found results leave the state as the function left it.
\<close>

datatype op =
    Query string string
  | Create string string string
  | Update nat updates
  | Toggle nat
  | Delete nat
  | BulkToggle "nat list"
  | BulkDelete "nat list"
  | Stats
  | ClearAll

fun apply_op :: "store \<Rightarrow> op \<Rightarrow> store" where
  "apply_op s (Query status q) = fst (getTodos s status q)"
| "apply_op s (Create ttl descr now) = fst (createTodo s ttl descr now)"
| "apply_op s (Update i u) = fst (updateTodo s i u)"
| "apply_op s (Toggle i) = fst (toggleTodo s i)"
| "apply_op s (Delete i) = fst (deleteTodo s i)"
| "apply_op s (BulkToggle ids) = fst (bulkToggleTodos s ids)"
| "apply_op s (BulkDelete ids) = fst (bulkDeleteTodos s ids)"
| "apply_op s Stats = s"
| "apply_op s ClearAll = fst (clearAllTodos s)"

definition run :: "store \<Rightarrow> op list \<Rightarrow> store" where
  "run s ops = foldl apply_op s ops"

text \<open>The identifiers that the successful \<open>createTodo\<close> calls of a history return, in order.\<close>

fun created_ids :: "store \<Rightarrow> op list \<Rightarrow> nat list" where
  "created_ids s [] = []"
| "created_ids s (Create ttl descr now # ops) =
     (case createTodo s ttl descr now of
        (s', Inr r) \<Rightarrow> id_num (deref s' r) # created_ids s' ops
      | (s', Inl e) \<Rightarrow> created_ids s' ops)"
| "created_ids s (opn # ops) = created_ids (apply_op s opn) ops"

text \<open>A run of queries, the cache being the only thing they change.\<close>

definition run_queries :: "store \<Rightarrow> (string \<times> string) list \<Rightarrow> store" where
  "run_queries s qs = foldl (\<lambda>s' (status, q). fst (getTodos s' status q)) s qs"

text \<open>
  What a caller can do to an array it holds a reference to, besides reading it: replace
  its elements (\<open>push\<close>, \<open>pop\<close>, \<open>splice\<close>, \<open>sort\<close>, an indexed write, \<open>length = 0\<close>).
\<close>

definition caller_write :: "store \<Rightarrow> ref \<Rightarrow> ref list \<Rightarrow> store" where
  "caller_write s a xs = s\<lparr>arrs := (arrs s)[a := xs]\<rparr>"

text \<open>What the caller of \<open>getTodos\<close> reads in the array it gets, when it gets it.\<close>

definition query_view :: "store \<Rightarrow> string \<Rightarrow> string \<Rightarrow> todo list" where
  "query_view s status q = (case getTodos s status q of (s', a) \<Rightarrow> view s' a)"

text \<open>The calls that write a field of an object of the collection in place.\<close>

fun is_toggle :: "op \<Rightarrow> bool" where
  "is_toggle (Toggle i) = True"
| "is_toggle (BulkToggle ids) = True"
| "is_toggle opn = False"

section \<open>The query as the specification words it\<close>

text \<open>
  The filter recomputed on the records themselves: the status first (unless it is
  \<open>all\<close>, the records whose \<open>completed\<close> equals \<open>status = completed\<close>), then the text
  (unless it is empty, the records whose title or description contains the lower-cased
  text, both lower-cased, as a contiguous run).
\<close>

definition matches_status :: "string \<Rightarrow> todo \<Rightarrow> bool" where
  "matches_status status t = (status = ''all'' \<or> completed t = (status = ''completed''))"

definition matches_text :: "string \<Rightarrow> todo \<Rightarrow> bool" where
  "matches_text q t =
     (q = [] \<or> sublist (toLowerCase q) (toLowerCase (title t))
             \<or> sublist (toLowerCase q) (toLowerCase (description t)))"

definition query_spec :: "todo list \<Rightarrow> string \<Rightarrow> string \<Rightarrow> todo list" where
  "query_spec rs status q = filter (matches_text q) (filter (matches_status status) rs)"

section \<open>Invariants of the reachable states\<close>

text \<open>
  References are sound: the variable \<open>todos\<close> and the cache point to allocated arrays,
  every array holds allocated objects, the collection holds no object twice, and no
  cached array is the collection's own array.
\<close>

definition heap_ok :: "store \<Rightarrow> bool" where
  "heap_ok s =
     (todos s < length (arrs s) \<and>
      (\<forall>xs \<in> set (arrs s). \<forall>r \<in> set xs. r < length (objs s)) \<and>
      distinct (todosArr s) \<and>
      (\<forall>(k, a) \<in> set (queryCache s). a < length (arrs s) \<and> a \<noteq> todos s))"

text \<open>Every cached array holds what the filter of its key gives on the collection as it is.\<close>

definition cache_ok :: "store \<Rightarrow> bool" where
  "cache_ok s =
     (\<forall>status q a. map_of (queryCache s) (getCacheKey status q) = Some a \<longrightarrow>
        arrs s ! a = search_filter s q (status_filter s status (todosArr s)))"

definition cache_bounded :: "store \<Rightarrow> bool" where
  "cache_bounded s =
     (length (queryCache s) \<le> CACHE_SIZE_LIMIT \<and> distinct (map fst (queryCache s)))"

text \<open>
  The records of the collection have pairwise different ids, all below the counter. It
  holds of the reachable states whose counter is still below \<open>2 ^ 53\<close>.
\<close>

definition ids_ok :: "store \<Rightarrow> bool" where
  "ids_ok s =
     (distinct (map id_num (records s)) \<and> (\<forall>t \<in> set (records s). id_num t < idCounter s))"

definition store_inv :: "store \<Rightarrow> bool" where
  "store_inv s = (heap_ok s \<and> cache_ok s \<and> cache_bounded s)"

text \<open>The three shapes of an escape of \<open>quoteChar\<close>.\<close>

datatype escape_kind = Plain | Short | Long

definition escape_of :: "char \<Rightarrow> escape_kind" where
  "escape_of c =
     (let n = (of_char c :: nat)
      in if n \<in> {8, 9, 10, 12, 13, 34, 92} then Short else if n < 32 then Long else Plain)"

section \<open>The counter\<close>

text \<open>The same function with the comparison on integers, for evaluation on numerals.\<close>

lemma increment_code [code]:
  "increment n =
     (if int n < 2 ^ 53 then n + 1
      else if int n < 2 ^ 54 \<and> odd (n div 2) then n + 2
      else n)"
proof -
  have "int n < 2 ^ 53 \<longleftrightarrow> n < 2 ^ 53" "int n < 2 ^ 54 \<longleftrightarrow> n < 2 ^ 54"
    by (simp_all add: of_nat_less_numeral_power_cancel_iff)
  then show ?thesis by (simp only: increment_def)
qed

lemma increment_exact: "n < 2 ^ 53 \<Longrightarrow> increment n = Suc n"
  by (simp add: increment_def)

lemma increment_ge: "n \<le> increment n"
  by (simp add: increment_def)

lemma increment_le: "n \<le> 2 ^ 53 \<Longrightarrow> increment n \<le> Suc n \<and> increment n \<le> 2 ^ 53"
  by (auto simp add: increment_def)

section \<open>The cache key determines the filter\<close>

lemma hexDigit_inj: "a < 16 \<Longrightarrow> b < 16 \<Longrightarrow> hexDigit a = hexDigit b \<Longrightarrow> a = b"
  unfolding hexDigit_def
  by (subst (asm) nth_eq_iff_index_eq) simp_all

lemma of_char_nat_inj: "(of_char c :: nat) = of_char c' \<Longrightarrow> c = c'"
  by simp

lemma quoteChar_Plain: "escape_of c = Plain \<Longrightarrow> quoteChar c = [c] \<and> c \<noteq> CHR 0x5C"
  by (auto simp add: quoteChar_def escape_of_def Let_def split: if_splits)

lemma quoteChar_Long:
  "escape_of c = Long \<Longrightarrow>
   quoteChar c = [CHR 0x5C, CHR ''u'', CHR ''0'', CHR ''0'',
                  hexDigit (of_char c div 16), hexDigit (of_char c mod 16)] \<and>
   (of_char c :: nat) < 32"
  by (auto simp add: quoteChar_def escape_of_def Let_def split: if_splits)

lemma quoteChar_Short:
  "escape_of c = Short \<Longrightarrow> \<exists>e. quoteChar c = [CHR 0x5C, e] \<and> e \<noteq> CHR ''u''"
  by (auto simp add: quoteChar_def escape_of_def Let_def split: if_splits)

lemma quoteChar_Short_inj:
  "escape_of c = Short \<Longrightarrow> escape_of c' = Short \<Longrightarrow> quoteChar c = quoteChar c' \<Longrightarrow> c = c'"
  by (rule of_char_nat_inj)
    (auto simp add: quoteChar_def escape_of_def Let_def simp del: of_char_eq_iff
      split: if_splits)

lemma quoteChar_Long_inj:
  assumes "escape_of c = Long" "escape_of c' = Long" "quoteChar c = quoteChar c'"
  shows "c = c'"
proof (rule of_char_nat_inj)
  let ?n = "of_char c :: nat" and ?m = "of_char c' :: nat"
  from assms have n: "?n < 32" and m: "?m < 32"
    and h: "hexDigit (?n div 16) = hexDigit (?m div 16)"
    and l: "hexDigit (?n mod 16) = hexDigit (?m mod 16)"
    using quoteChar_Long[of c] quoteChar_Long[of c'] by simp_all
  from n m have "?n div 16 < 16" "?m div 16 < 16" by simp_all
  then have d: "?n div 16 = ?m div 16" by (rule hexDigit_inj[OF _ _ h])
  have "?n mod 16 = ?m mod 16" by (rule hexDigit_inj[OF _ _ l]) simp_all
  with d show "?n = ?m" by (metis div_mult_mod_eq)
qed

lemma quoteChar_prefix_code:
  assumes "quoteChar c @ x = quoteChar c' @ x'"
  shows "c = c' \<and> x = x'"
proof -
  have same: "quoteChar c = quoteChar c' \<and> x = x' \<and> escape_of c = escape_of c'"
    using assms quoteChar_Plain[of c] quoteChar_Plain[of c'] quoteChar_Short[of c]
      quoteChar_Short[of c'] quoteChar_Long[of c] quoteChar_Long[of c']
    by (cases "escape_of c"; cases "escape_of c'") auto
  then have "c = c'"
    using quoteChar_Plain[of c] quoteChar_Plain[of c'] quoteChar_Short_inj[of c c']
      quoteChar_Long_inj[of c c']
    by (cases "escape_of c") auto
  with same show ?thesis by simp
qed

lemma quoteChar_no_quote: "quoteChar c @ y \<noteq> CHR 0x22 # z"
  by (auto simp add: quoteChar_def Let_def split: if_splits)

lemma quote_body_inj:
  "concat (map quoteChar s) @ CHR 0x22 # x = concat (map quoteChar s') @ CHR 0x22 # x'
   \<Longrightarrow> s = s' \<and> x = x'"
proof (induction s arbitrary: s')
  case Nil
  note prems = Nil.prems
  show ?case
  proof (cases s')
    case Nil
    with prems show ?thesis by simp
  next
    case (Cons c' cs')
    with prems have
      "quoteChar c' @ (concat (map quoteChar cs') @ CHR 0x22 # x') = CHR 0x22 # x"
      by simp
    then show ?thesis by (simp only: quoteChar_no_quote)
  qed
next
  case (Cons c cs)
  note prems = Cons.prems and IH = Cons.IH
  show ?case
  proof (cases s')
    case Nil
    with prems have
      "quoteChar c @ (concat (map quoteChar cs) @ CHR 0x22 # x) = CHR 0x22 # x'"
      by simp
    then show ?thesis by (simp only: quoteChar_no_quote)
  next
    case (Cons c' cs')
    with prems have
      "quoteChar c @ (concat (map quoteChar cs) @ CHR 0x22 # x) =
       quoteChar c' @ (concat (map quoteChar cs') @ CHR 0x22 # x')"
      by simp
    from quoteChar_prefix_code[OF this] have "c = c'" and
      "concat (map quoteChar cs) @ CHR 0x22 # x = concat (map quoteChar cs') @ CHR 0x22 # x'"
      by simp_all
    with IH[of cs'] Cons show ?thesis by simp
  qed
qed

lemma getCacheKey_inj: "getCacheKey status q = getCacheKey status' q' \<Longrightarrow> status = status' \<and> q = q'"
proof -
  assume "getCacheKey status q = getCacheKey status' q'"
  then have "concat (map quoteChar status) @ CHR 0x22 # ('',\"q\":'' @ quoteJSONString q @ ''}'')
     = concat (map quoteChar status') @ CHR 0x22 # ('',\"q\":'' @ quoteJSONString q' @ ''}'')"
    by (simp add: getCacheKey_def quoteJSONString_def)
  then have st: "status = status'" and "quoteJSONString q @ ''}'' = quoteJSONString q' @ ''}''"
    by (auto dest: quote_body_inj)
  then have "q = q'"
    using quote_body_inj[of q "''}''" q' "''}''"] by (simp add: quoteJSONString_def)
  with st show ?thesis by simp
qed

section \<open>References stay sound\<close>

lemma findIndex_Some: "findIndex P xs = Some k \<Longrightarrow> k < length xs \<and> P (xs ! k) \<and> (\<forall>j<k. \<not> P (xs ! j))"
proof (induction xs arbitrary: k)
  case Nil
  then show ?case by simp
next
  case (Cons x xs)
  then show ?case
    by (auto split: if_splits simp add: nth_Cons less_Suc_eq_0_disj split: nat.splits)
qed

lemma findIndex_None: "findIndex P xs = None \<longleftrightarrow> (\<forall>x\<in>set xs. \<not> P x)"
  by (induction xs) auto

lemma findIndex_map: "findIndex P (map f xs) = findIndex (P \<circ> f) xs"
  by (induction xs) auto

lemma heap_ok_init: "heap_ok init_store"
  by (simp add: heap_ok_def init_store_def todosArr_def)

lemma distinct_upd_fresh: "distinct xs \<Longrightarrow> y \<notin> set xs \<Longrightarrow> distinct (xs[k := y])"
  by (simp add: distinct_list_update)

lemma distinct_take_drop: "distinct xs \<Longrightarrow> distinct (take k xs @ drop (Suc k) xs)"
proof -
  assume d: "distinct xs"
  have "xs = take k xs @ drop k xs" by simp
  with d have "distinct (take k xs @ drop k xs)" by simp
  then have "distinct (take k xs @ drop 1 (drop k xs))"
    by (auto simp del: append_take_drop_id drop_drop dest: in_set_dropD)
  then show ?thesis by simp
qed

lemma heap_ok_alt:
  "heap_ok s \<longleftrightarrow>
     todos s < length (arrs s) \<and>
     (\<forall>a<length (arrs s). \<forall>r\<in>set (arrs s ! a). r < length (objs s)) \<and>
     distinct (arrs s ! todos s) \<and>
     (\<forall>k a. (k, a) \<in> set (queryCache s) \<longrightarrow> a < length (arrs s) \<and> a \<noteq> todos s)"
  unfolding heap_ok_def todosArr_def all_set_conv_all_nth[of "arrs s"] by auto

lemma heap_ok_todos: "heap_ok s \<Longrightarrow> todos s < length (arrs s)"
  by (simp add: heap_ok_alt)

lemma heap_ok_refs: "heap_ok s \<Longrightarrow> \<forall>r\<in>set (arrs s ! todos s). r < length (objs s)"
  by (auto simp add: heap_ok_alt)

lemma heap_ok_ref: "heap_ok s \<Longrightarrow> r \<in> set (todosArr s) \<Longrightarrow> r < length (objs s)"
  unfolding todosArr_def by (auto simp add: heap_ok_alt)

lemma heap_ok_fresh: "heap_ok s \<Longrightarrow> length (objs s) \<notin> set (arrs s ! todos s)"
  by (auto dest: heap_ok_refs)

lemma heap_ok_createTodo: "heap_ok s \<Longrightarrow> heap_ok (fst (createTodo s ttl descr now))"
  using heap_ok_refs[of s] heap_ok_fresh[of s]
  unfolding createTodo_def Let_def clearCache_def todosArr_def
  by (auto simp add: heap_ok_alt nth_list_update less_Suc_eq split: if_splits)

lemma heap_ok_updateTodo: "heap_ok s \<Longrightarrow> heap_ok (fst (updateTodo s i u))"
  using heap_ok_refs[of s] heap_ok_fresh[of s]
  unfolding updateTodo_def Let_def clearCache_def todosArr_def
  by (auto intro!: distinct_upd_fresh dest!: set_update_subset_insert[THEN subsetD] simp add: heap_ok_alt nth_list_update less_Suc_eq split: if_splits option.splits sum.splits)

lemma heap_ok_toggleTodo: "heap_ok s \<Longrightarrow> heap_ok (fst (toggleTodo s i))"
  using heap_ok_refs[of s]
  unfolding toggleTodo_def Let_def clearCache_def todosArr_def
  by (auto simp add: heap_ok_alt split: option.splits)

lemma heap_ok_deleteTodo: "heap_ok s \<Longrightarrow> heap_ok (fst (deleteTodo s i))"
  using heap_ok_refs[of s] distinct_take_drop[of "arrs s ! todos s"]
  unfolding deleteTodo_def Let_def clearCache_def todosArr_def
  by (auto intro!: distinct_take_drop dest: in_set_takeD in_set_dropD simp add: heap_ok_alt nth_list_update split: option.splits if_splits)

lemma bulkToggle_fold_length:
  "fold (bulkToggle_step idSet) xs (os, acc) = (os', acc') \<Longrightarrow> length os' = length os"
  by (induction xs arbitrary: os acc) (auto simp add: bulkToggle_step_def split: if_splits)

lemma heap_ok_bulkToggleTodos: "heap_ok s \<Longrightarrow> heap_ok (fst (bulkToggleTodos s ids))"
  using heap_ok_refs[of s]
  unfolding bulkToggleTodos_def Let_def clearCache_def todosArr_def
  by (auto simp add: heap_ok_alt split: prod.splits dest: bulkToggle_fold_length)

lemma heap_ok_bulkDeleteTodos: "heap_ok s \<Longrightarrow> heap_ok (fst (bulkDeleteTodos s ids))"
  using heap_ok_refs[of s]
  unfolding bulkDeleteTodos_def Let_def clearCache_def todosArr_def
  by (auto simp add: heap_ok_alt nth_append less_Suc_eq split: if_splits)

lemma heap_ok_clearAllTodos: "heap_ok s \<Longrightarrow> heap_ok (fst (clearAllTodos s))"
  using heap_ok_refs[of s]
  unfolding clearAllTodos_def Let_def clearCache_def todosArr_def
  by (auto simp add: heap_ok_alt nth_append less_Suc_eq split: if_splits)

lemma evict_subset: "set (evict c) \<subseteq> set c"
  by (auto simp add: evict_def AList.delete_eq split: list.splits)

lemma status_filter_subset: "set (status_filter s status xs) \<subseteq> set xs"
  by (auto simp add: status_filter_def Let_def)

lemma search_filter_subset: "set (search_filter s q xs) \<subseteq> set xs"
  by (auto simp add: search_filter_def Let_def)

lemma set_update_fresh: "map_of c k = None \<Longrightarrow> set (AList.update k v c) = insert (k, v) (set c)"
  by (induction c) (auto split: if_splits)

lemma map_of_evict_None: "map_of c k = None \<Longrightarrow> map_of (evict c) k = None"
  by (auto simp add: evict_def AList.delete_eq map_of_eq_None_iff split: list.splits)

lemma heap_ok_getTodos: "heap_ok s \<Longrightarrow> heap_ok (fst (getTodos s status q))"
proof (cases "map_of (queryCache s) (getCacheKey status q)")
  case (Some a)
  assume "heap_ok s"
  with Some show ?thesis by (simp add: getTodos_def)
next
  case None
  assume ok: "heap_ok s"
  let ?res = "search_filter s q (status_filter s status (todosArr s))"
  have res: "\<And>r. r \<in> set ?res \<Longrightarrow> r < length (objs s)"
    using search_filter_subset status_filter_subset heap_ok_ref[OF ok] by blast
  have c: "set (AList.update (getCacheKey status q) (length (arrs s)) (evict (queryCache s)))
      \<subseteq> insert (getCacheKey status q, length (arrs s)) (set (queryCache s))"
    using set_update_fresh[OF map_of_evict_None[OF None]] evict_subset[of "queryCache s"]
    by auto
  show ?thesis
    using heap_ok_refs[OF ok] ok None res c
    unfolding getTodos_def Let_def
    by (fastforce simp add: heap_ok_alt nth_append less_Suc_eq split: if_splits)
qed

lemma heap_ok_apply_op: "heap_ok s \<Longrightarrow> heap_ok (apply_op s opn)"
  by (cases opn)
    (simp_all add: heap_ok_getTodos heap_ok_createTodo heap_ok_updateTodo heap_ok_toggleTodo
      heap_ok_deleteTodo heap_ok_bulkToggleTodos heap_ok_bulkDeleteTodos heap_ok_clearAllTodos)

lemma heap_ok_run: "heap_ok s \<Longrightarrow> heap_ok (run s ops)"
  unfolding run_def by (induction ops arbitrary: s) (simp_all add: heap_ok_apply_op)

section \<open>What each operation does to the records\<close>

lemma find_findIndex:
  "find P xs = (case findIndex P xs of None \<Rightarrow> None | Some k \<Rightarrow> Some (xs ! k))"
  by (induction xs) (auto split: option.splits)

lemma map_nth_update_distinct:
  assumes "distinct xs" "k < length xs" "\<forall>r\<in>set xs. r < length os"
  shows "map (\<lambda>r. os[xs ! k := v] ! r) xs = (map (\<lambda>r. os ! r) xs)[k := v]"
proof (rule nth_equalityI)
  show "length (map (\<lambda>r. os[xs ! k := v] ! r) xs) = length ((map (\<lambda>r. os ! r) xs)[k := v])"
    by simp
next
  fix j assume "j < length (map (\<lambda>r. os[xs ! k := v] ! r) xs)"
  then have j: "j < length xs" by simp
  with assms have "xs ! j = xs ! k \<longleftrightarrow> j = k"
    by (simp add: nth_eq_iff_index_eq)
  moreover from assms j have "xs ! j < length os" "xs ! k < length os" by simp_all
  ultimately show "map (\<lambda>r. os[xs ! k := v] ! r) xs ! j = (map (\<lambda>r. os ! r) xs)[k := v] ! j"
    using j by (auto simp add: nth_list_update)
qed

lemma deref_eq: "deref s = (!) (objs s)"
  by (rule ext) (simp add: deref_def)

lemma records_alt: "records s = map (\<lambda>r. objs s ! r) (arrs s ! todos s)"
  by (simp add: records_def deref_def todosArr_def)

lemma findIndex_records:
  "findIndex (\<lambda>r. id_num (deref s r) = i) (todosArr s) = findIndex (\<lambda>t. id_num t = i) (records s)"
  by (simp add: records_def findIndex_map o_def)

lemma map_append_old:
  "\<forall>r\<in>set xs. r < length os \<Longrightarrow> map (\<lambda>r. (os @ ys) ! r) xs = map (\<lambda>r. os ! r) xs"
  by (simp add: nth_append)

lemma records_createTodo:
  assumes "heap_ok s" "trim ttl \<noteq> []"
  shows "records (fst (createTodo s ttl descr now)) =
         records s @ [\<lparr>id_num = idCounter s, title = trim ttl, description = descr,
                       completed = False, createdAt = now\<rparr>]"
  using assms heap_ok_refs[of s] heap_ok_todos[of s]
  by (simp add: createTodo_def Let_def clearCache_def records_alt todosArr_def map_append_old)

lemma records_getTodos:
  assumes "heap_ok s"
  shows "records (fst (getTodos s status q)) = records s"
  using assms heap_ok_todos[of s]
  by (simp add: getTodos_def Let_def records_alt nth_append split: option.splits)

lemma records_toggleTodo:
  assumes "heap_ok s"
  shows "records (fst (toggleTodo s i)) =
         (case findIndex (\<lambda>t. id_num t = i) (records s) of
            None \<Rightarrow> records s
          | Some k \<Rightarrow> (records s)[k := (records s ! k)\<lparr>completed := \<not> completed (records s ! k)\<rparr>])"
proof (cases "findIndex (\<lambda>r. id_num (deref s r) = i) (todosArr s)")
  case None
  then show ?thesis
    by (simp add: toggleTodo_def find_findIndex findIndex_records[symmetric])
next
  case (Some k)
  then have k: "k < length (todosArr s)"
    by (auto dest: findIndex_Some)
  from assms have d: "distinct (todosArr s)" by (simp add: heap_ok_def)
  from assms have b: "\<forall>r\<in>set (todosArr s). r < length (objs s)"
    by (simp add: heap_ok_refs todosArr_def)
  let ?r = "todosArr s ! k"
  let ?v = "(deref s ?r)\<lparr>completed := \<not> completed (deref s ?r)\<rparr>"
  have "records (fst (toggleTodo s i)) = map (\<lambda>r. (objs s)[?r := ?v] ! r) (todosArr s)"
    using Some
    by (simp add: toggleTodo_def find_findIndex Let_def clearCache_def records_def deref_def
        todosArr_def)
  also have "\<dots> = (map (\<lambda>r. objs s ! r) (todosArr s))[k := ?v]"
    by (rule map_nth_update_distinct[OF d k b])
  also have "\<dots> = (records s)[k := (records s ! k)\<lparr>completed := \<not> completed (records s ! k)\<rparr>]"
    using k by (simp add: records_def deref_eq)
  finally show ?thesis
    using Some by (simp add: findIndex_records)
qed

lemma records_deleteTodo:
  assumes "heap_ok s"
  shows "records (fst (deleteTodo s i)) =
         (case findIndex (\<lambda>t. id_num t = i) (records s) of
            None \<Rightarrow> records s
          | Some k \<Rightarrow> take k (records s) @ drop (Suc k) (records s))"
  using assms heap_ok_todos[of s]
  by (simp add: deleteTodo_def findIndex_records[symmetric] Let_def clearCache_def
      split: option.splits) (simp add: records_alt todosArr_def take_map drop_map)

lemma records_updateTodo:
  assumes "heap_ok s" "updateTodo s i u = (s', Inr (Some r))"
  shows "\<exists>k new. findIndex (\<lambda>t. id_num t = i) (records s) = Some k \<and>
           validateTitle u (spread (records s ! k) u) = Inr new \<and>
           records s' = (records s)[k := new] \<and> deref s' r = new"
proof -
  from assms(2) obtain k where k: "findIndex (\<lambda>r. id_num (deref s r) = i) (todosArr s) = Some k"
    by (auto simp add: updateTodo_def split: option.splits)
  then have kl: "k < length (todosArr s)" by (auto dest: findIndex_Some)
  from assms(2) k obtain new where
    new: "validateTitle u (spread (deref s (todosArr s ! k)) u) = Inr new"
    by (auto simp add: updateTodo_def Let_def split: sum.splits)
  from kl have rk: "records s ! k = deref s (todosArr s ! k)" by (simp add: records_def)
  have s': "s' = s\<lparr>objs := objs s @ [new], arrs := (arrs s)[todos s := (todosArr s)[k := length (objs s)]],
                   queryCache := []\<rparr>" and r: "r = length (objs s)"
    using assms(2) k new by (auto simp add: updateTodo_def Let_def clearCache_def todosArr_def)
  have "records s' = (records s)[k := new]"
    using heap_ok_refs[OF assms(1)] heap_ok_todos[OF assms(1)] kl
    unfolding s' records_alt todosArr_def
    by (auto intro!: nth_equalityI simp add: nth_list_update nth_append)
  moreover have "deref s' r = new" by (simp add: s' r deref_def)
  ultimately show ?thesis using k new rk by (auto simp add: findIndex_records)
qed

lemma records_bulkDeleteTodos:
  assumes "heap_ok s"
  shows "records (fst (bulkDeleteTodos s ids)) = filter (\<lambda>t. id_num t \<notin> set ids) (records s)"
  by (simp add: bulkDeleteTodos_def Let_def clearCache_def records_alt todosArr_def deref_def
      filter_map o_def)

lemma records_clearAllTodos: "records (fst (clearAllTodos s)) = []"
  by (simp add: clearAllTodos_def Let_def clearCache_def records_alt)

lemma bulkToggle_fold:
  assumes "distinct xs" "\<forall>r\<in>set xs. r < length os"
    and "fold (bulkToggle_step I) xs (os, acc) = (os', acc')"
  shows "acc' = acc @ filter (\<lambda>r. id_num (os ! r) \<in> I) xs \<and> length os' = length os \<and>
         (\<forall>r<length os. os' ! r =
            (if r \<in> set xs \<and> id_num (os ! r) \<in> I
             then (os ! r)\<lparr>completed := \<not> completed (os ! r)\<rparr> else os ! r))"
  using assms
proof (induction xs arbitrary: os acc)
  case Nil
  then show ?case by simp
next
  case (Cons x xs)
  let ?t = "(os ! x)\<lparr>completed := \<not> completed (os ! x)\<rparr>"
  let ?os1 = "if id_num (os ! x) \<in> I then os[x := ?t] else os"
  let ?acc1 = "if id_num (os ! x) \<in> I then acc @ [x] else acc"
  from Cons.prems have x: "x < length os" "x \<notin> set xs" "distinct xs" by simp_all
  have ids: "\<And>r. r < length os \<Longrightarrow> id_num (?os1 ! r) = id_num (os ! r)"
    using x(1) by (auto simp add: nth_list_update)
  have st: "bulkToggle_step I x (os, acc) = (?os1, ?acc1)"
    by (simp add: bulkToggle_step_def)
  from Cons.prems(3) have f: "fold (bulkToggle_step I) xs (?os1, ?acc1) = (os', acc')"
    by (simp only: fold_simps o_apply st)
  from Cons.prems(2) have b: "\<forall>r\<in>set xs. r < length ?os1" by simp
  note IH = Cons.IH[OF x(3) b f]
  have flt: "filter (\<lambda>r. id_num (?os1 ! r) \<in> I) xs = filter (\<lambda>r. id_num (os ! r) \<in> I) xs"
    using Cons.prems(2) by (intro filter_cong) (simp_all add: nth_list_update)
  have "acc' = acc @ filter (\<lambda>r. id_num (os ! r) \<in> I) (x # xs)"
    using IH flt by simp
  moreover have "length os' = length os" using IH by simp
  moreover have "\<forall>r<length os. os' ! r =
            (if r \<in> set (x # xs) \<and> id_num (os ! r) \<in> I
             then (os ! r)\<lparr>completed := \<not> completed (os ! r)\<rparr> else os ! r)"
  proof (intro allI impI)
    fix r assume r: "r < length os"
    then have "os' ! r = (if r \<in> set xs \<and> id_num (?os1 ! r) \<in> I
             then (?os1 ! r)\<lparr>completed := \<not> completed (?os1 ! r)\<rparr> else ?os1 ! r)"
      using IH by simp
    then show "os' ! r =
            (if r \<in> set (x # xs) \<and> id_num (os ! r) \<in> I
             then (os ! r)\<lparr>completed := \<not> completed (os ! r)\<rparr> else os ! r)"
      using x r by (auto simp add: nth_list_update split: if_splits)
  qed
  ultimately show ?case by blast
qed

lemma records_bulkToggleTodos:
  assumes "heap_ok s"
  shows "records (fst (bulkToggleTodos s ids)) =
         map (\<lambda>t. if id_num t \<in> set ids then t\<lparr>completed := \<not> completed t\<rparr> else t) (records s)"
proof -
  obtain os upd where f: "fold (bulkToggle_step (set ids)) (todosArr s) (objs s, []) = (os, upd)"
    by (cases "fold (bulkToggle_step (set ids)) (todosArr s) (objs s, [])")
  from assms have d: "distinct (todosArr s)" and b: "\<forall>r\<in>set (todosArr s). r < length (objs s)"
    by (simp_all add: heap_ok_alt todosArr_def heap_ok_refs)
  note F = bulkToggle_fold[OF d b f]
  have "records (fst (bulkToggleTodos s ids)) = map (\<lambda>r. os ! r) (todosArr s)"
    using f by (simp add: bulkToggleTodos_def Let_def clearCache_def records_alt todosArr_def)
  also have "\<dots> = map (\<lambda>t. if id_num t \<in> set ids then t\<lparr>completed := \<not> completed t\<rparr> else t) (records s)"
    using F b by (simp add: records_def deref_def)
  finally show ?thesis .
qed

section \<open>The cache stays coherent\<close>

lemma createTodo_cases:
  "createTodo s ttl descr now = (s, Inl ValidationError) \<and> trim ttl = [] \<or>
   (\<exists>s'. createTodo s ttl descr now = (s', Inr (length (objs s))) \<and> trim ttl \<noteq> [] \<and>
      queryCache s' = [] \<and> idCounter s' = increment (idCounter s))"
  by (simp add: createTodo_def Let_def clearCache_def)

lemma validateTitle_id:
  "validateTitle u (spread t u) = Inr new \<Longrightarrow> id_num new = id_num t \<and> createdAt new = createdAt t"
  by (auto simp add: validateTitle_def spread_def Let_def split: option.splits if_splits)

lemma validateTitle_Inl: "validateTitle u t = Inl e \<Longrightarrow> e = ValidationError"
  by (auto simp add: validateTitle_def Let_def split: option.splits if_splits)

lemma updateTodo_cases:
  "updateTodo s i u = (s, Inr None) \<or> updateTodo s i u = (s, Inl ValidationError) \<or>
   (\<exists>s' r. updateTodo s i u = (s', Inr (Some r)) \<and> queryCache s' = [] \<and>
      idCounter s' = idCounter s)"
  by (auto simp add: updateTodo_def Let_def clearCache_def split: option.splits sum.splits
      dest: validateTitle_Inl)

lemma toggleTodo_cases:
  "toggleTodo s i = (s, None) \<or>
   (\<exists>s' r. toggleTodo s i = (s', Some r) \<and> queryCache s' = [] \<and> idCounter s' = idCounter s)"
  by (auto simp add: toggleTodo_def Let_def clearCache_def split: option.splits)

lemma deleteTodo_cases:
  "deleteTodo s i = (s, None) \<or>
   (\<exists>s' r. deleteTodo s i = (s', Some r) \<and> queryCache s' = [] \<and> idCounter s' = idCounter s)"
  by (auto simp add: deleteTodo_def Let_def clearCache_def split: option.splits)

lemma bulkToggle_fold_none:
  assumes "distinct xs" "\<forall>r\<in>set xs. r < length os"
    and "fold (bulkToggle_step I) xs (os, []) = (os', [])"
  shows "os' = os"
proof (rule nth_equalityI)
  note F = bulkToggle_fold[OF assms]
  show "length os' = length os" using F by simp
  fix r assume "r < length os'"
  with F have r: "r < length os" by simp
  from F have "filter (\<lambda>r. id_num (os ! r) \<in> I) xs = []" by simp
  then have "\<not> (r \<in> set xs \<and> id_num (os ! r) \<in> I)"
    by (auto simp add: filter_empty_conv)
  with F r show "os' ! r = os ! r" by simp
qed

lemma bulkToggleTodos_cases:
  assumes "heap_ok s"
  shows "bulkToggleTodos s ids = (s, []) \<or>
   (\<exists>s' upd. bulkToggleTodos s ids = (s', upd) \<and> upd \<noteq> [] \<and> queryCache s' = [] \<and>
      idCounter s' = idCounter s)"
proof -
  obtain os upd where f: "fold (bulkToggle_step (set ids)) (todosArr s) (objs s, []) = (os, upd)"
    by (cases "fold (bulkToggle_step (set ids)) (todosArr s) (objs s, [])")
  from assms have d: "distinct (todosArr s)" and b: "\<forall>r\<in>set (todosArr s). r < length (objs s)"
    by (simp_all add: heap_ok_alt todosArr_def heap_ok_refs)
  show ?thesis
  proof (cases "upd = []")
    case True
    with f bulkToggle_fold_none[OF d b] have "os = objs s" by simp
    with f True show ?thesis by (simp add: bulkToggleTodos_def Let_def)
  next
    case False
    with f show ?thesis by (simp add: bulkToggleTodos_def Let_def clearCache_def)
  qed
qed

lemma status_filter_objs: "objs s' = objs s \<Longrightarrow> status_filter s' status xs = status_filter s status xs"
  by (simp add: status_filter_def deref_def)

lemma search_filter_objs: "objs s' = objs s \<Longrightarrow> search_filter s' q xs = search_filter s q xs"
  by (simp add: search_filter_def deref_def)

lemma cache_ok_empty: "queryCache s = [] \<Longrightarrow> cache_ok s"
  by (simp add: cache_ok_def)

lemma cache_ok_transfer:
  assumes "heap_ok s" "cache_ok s" "queryCache s' = queryCache s" "objs s' = objs s"
    "todosArr s' = todosArr s" "\<forall>a<length (arrs s). arrs s' ! a = arrs s ! a"
  shows "cache_ok s'"
  unfolding cache_ok_def
proof (intro allI impI)
  fix status q a
  assume "map_of (queryCache s') (getCacheKey status q) = Some a"
  with assms(3) have m: "map_of (queryCache s) (getCacheKey status q) = Some a" by simp
  then have "(getCacheKey status q, a) \<in> set (queryCache s)" by (rule map_of_SomeD)
  with assms(1) have "a < length (arrs s)" by (auto simp add: heap_ok_alt)
  with assms(6) have "arrs s' ! a = arrs s ! a" by simp
  also from assms(2) m have "\<dots> = search_filter s q (status_filter s status (todosArr s))"
    by (simp add: cache_ok_def)
  finally show "arrs s' ! a = search_filter s' q (status_filter s' status (todosArr s'))"
    using assms(5) by (simp add: status_filter_objs[OF assms(4)] search_filter_objs[OF assms(4)])
qed

lemma filter_none_all: "filter P xs = [] \<Longrightarrow> filter (\<lambda>x. \<not> P x) xs = xs"
  by (induction xs) (auto split: if_splits)

lemma cache_ok_bulkDeleteTodos:
  assumes "heap_ok s" "cache_ok s"
  shows "cache_ok (fst (bulkDeleteTodos s ids))"
proof (cases "filter (\<lambda>r. id_num (deref s r) \<in> set ids) (todosArr s) = []")
  case True
  show ?thesis
    using True filter_none_all[OF True] heap_ok_todos[OF assms(1)]
    by (intro cache_ok_transfer[OF assms])
      (simp_all add: bulkDeleteTodos_def Let_def todosArr_def nth_append)
next
  case False
  then show ?thesis
    by (intro cache_ok_empty) (simp add: bulkDeleteTodos_def Let_def clearCache_def)
qed

lemma map_of_evict_Some: "map_of (evict c) k = Some a \<Longrightarrow> map_of c k = Some a"
  by (auto simp add: evict_def delete_conv split: list.splits if_splits)

lemma cache_ok_getTodos:
  assumes "heap_ok s" "cache_ok s"
  shows "cache_ok (fst (getTodos s status q))"
proof (cases "map_of (queryCache s) (getCacheKey status q)")
  case (Some a)
  with assms show ?thesis by (simp add: getTodos_def)
next
  case None
  let ?res = "search_filter s q (status_filter s status (todosArr s))"
  let ?s' = "fst (getTodos s status q)"
  have c: "queryCache ?s' = AList.update (getCacheKey status q) (length (arrs s)) (evict (queryCache s))"
    and a: "arrs ?s' = arrs s @ [?res]" and o: "objs ?s' = objs s" and t: "todos ?s' = todos s"
    using None by (simp_all add: getTodos_def Let_def)
  from t a heap_ok_todos[OF assms(1)] have ta: "todosArr ?s' = todosArr s"
    by (simp add: todosArr_def nth_append)
  show ?thesis
    unfolding cache_ok_def
  proof (intro allI impI)
    fix status' q' b
    assume m: "map_of (queryCache ?s') (getCacheKey status' q') = Some b"
    show "arrs ?s' ! b = search_filter ?s' q' (status_filter ?s' status' (todosArr ?s'))"
    proof (cases "getCacheKey status' q' = getCacheKey status q")
      case True
      then have "status' = status" "q' = q" by (auto dest: getCacheKey_inj)
      moreover from m True c have "b = length (arrs s)" by (simp add: update_conv)
      ultimately show ?thesis
        using a ta by (simp add: status_filter_objs[OF o] search_filter_objs[OF o])
    next
      case False
      with m c have "map_of (evict (queryCache s)) (getCacheKey status' q') = Some b"
        by (simp add: update_conv)
      then have m': "map_of (queryCache s) (getCacheKey status' q') = Some b"
        by (rule map_of_evict_Some)
      then have "(getCacheKey status' q', b) \<in> set (queryCache s)" by (rule map_of_SomeD)
      with assms(1) have "b < length (arrs s)" by (auto simp add: heap_ok_alt)
      with a have "arrs ?s' ! b = arrs s ! b" by (simp add: nth_append)
      with assms(2) m' show ?thesis
        using ta by (simp add: cache_ok_def status_filter_objs[OF o] search_filter_objs[OF o])
    qed
  qed
qed

lemma cache_ok_apply_op:
  assumes "heap_ok s" "cache_ok s"
  shows "cache_ok (apply_op s opn)"
proof (cases opn)
  case (Query status q)
  with assms show ?thesis by (simp add: cache_ok_getTodos)
next
  case (Create ttl descr now)
  with assms createTodo_cases[of s ttl descr now] show ?thesis by (auto intro: cache_ok_empty)
next
  case (Update i u)
  with assms updateTodo_cases[of s i u] show ?thesis by (auto intro: cache_ok_empty)
next
  case (Toggle i)
  with assms toggleTodo_cases[of s i] show ?thesis by (auto intro: cache_ok_empty)
next
  case (Delete i)
  with assms deleteTodo_cases[of s i] show ?thesis by (auto intro: cache_ok_empty)
next
  case (BulkToggle ids)
  with assms bulkToggleTodos_cases[of s ids] show ?thesis by (auto intro: cache_ok_empty)
next
  case (BulkDelete ids)
  with assms show ?thesis by (simp add: cache_ok_bulkDeleteTodos)
next
  case Stats
  with assms show ?thesis by simp
next
  case ClearAll
  then show ?thesis by (auto intro: cache_ok_empty simp add: clearAllTodos_def Let_def clearCache_def)
qed

section \<open>Cache bound, identifiers, reachable states\<close>

lemma update_fresh_append: "map_of c k = None \<Longrightarrow> AList.update k v c = c @ [(k, v)]"
  by (induction c) (auto split: if_splits)

lemma evict_below: "length c < CACHE_SIZE_LIMIT \<Longrightarrow> evict c = c"
  by (simp add: evict_def)

lemma evict_full:
  "distinct (map fst c) \<Longrightarrow> CACHE_SIZE_LIMIT \<le> length c \<Longrightarrow> evict c = tl c"
  by (cases c) (auto simp add: evict_def CACHE_SIZE_LIMIT_def)

lemma evict_length: "length c \<le> CACHE_SIZE_LIMIT \<Longrightarrow> length (evict c) < CACHE_SIZE_LIMIT"
proof (cases c)
  case Nil
  then show ?thesis by (simp add: evict_def CACHE_SIZE_LIMIT_def)
next
  case (Cons p c')
  assume "length c \<le> CACHE_SIZE_LIMIT"
  moreover have "length (AList.delete (fst p) c') \<le> length c'" by (rule length_delete_le)
  ultimately show ?thesis using Cons
    by (cases p) (auto simp add: evict_def)
qed

lemma evict_distinct: "distinct (map fst c) \<Longrightarrow> distinct (map fst (evict c))"
  by (auto simp add: evict_def distinct_delete split: list.splits)

lemma queryCache_getTodos_miss:
  "map_of (queryCache s) (getCacheKey status q) = None \<Longrightarrow>
   queryCache (fst (getTodos s status q)) =
     evict (queryCache s) @ [(getCacheKey status q, snd (getTodos s status q))]"
  by (simp add: getTodos_def Let_def update_fresh_append map_of_evict_None)

lemma getTodos_hit:
  "map_of (queryCache s) (getCacheKey status q) = Some a \<Longrightarrow> getTodos s status q = (s, a)"
  by (simp add: getTodos_def)

lemma cache_bounded_empty: "queryCache s = [] \<Longrightarrow> cache_bounded s"
  by (simp add: cache_bounded_def)

lemma cache_bounded_getTodos:
  assumes "cache_bounded s"
  shows "cache_bounded (fst (getTodos s status q))"
proof (cases "map_of (queryCache s) (getCacheKey status q)")
  case (Some a)
  with assms show ?thesis by (simp add: getTodos_hit)
next
  case None
  from assms have l: "length (evict (queryCache s)) < CACHE_SIZE_LIMIT"
    and d: "distinct (map fst (evict (queryCache s)))"
    by (simp_all add: cache_bounded_def evict_length evict_distinct)
  from None have "getCacheKey status q \<notin> fst ` set (evict (queryCache s))"
    using map_of_evict_None[OF None] by (simp add: map_of_eq_None_iff)
  with l d show ?thesis
    unfolding cache_bounded_def queryCache_getTodos_miss[OF None] by simp
qed

lemma cache_bounded_apply_op:
  assumes "heap_ok s" "cache_bounded s"
  shows "cache_bounded (apply_op s opn)"
proof (cases opn)
  case (Query status q)
  with assms show ?thesis by (simp add: cache_bounded_getTodos)
next
  case (Create ttl descr now)
  with assms createTodo_cases[of s ttl descr now] show ?thesis by (auto intro: cache_bounded_empty)
next
  case (Update i u)
  with assms updateTodo_cases[of s i u] show ?thesis by (auto intro: cache_bounded_empty)
next
  case (Toggle i)
  with assms toggleTodo_cases[of s i] show ?thesis by (auto intro: cache_bounded_empty)
next
  case (Delete i)
  with assms deleteTodo_cases[of s i] show ?thesis by (auto intro: cache_bounded_empty)
next
  case (BulkToggle ids)
  with assms bulkToggleTodos_cases[of s ids] show ?thesis by (auto intro: cache_bounded_empty)
next
  case (BulkDelete ids)
  with assms show ?thesis
    by (simp add: bulkDeleteTodos_def Let_def clearCache_def cache_bounded_def)
next
  case Stats
  with assms show ?thesis by simp
next
  case ClearAll
  then show ?thesis
    by (auto intro: cache_bounded_empty simp add: clearAllTodos_def Let_def clearCache_def)
qed

lemma idCounter_getTodos: "idCounter (fst (getTodos s status q)) = idCounter s"
  by (simp add: getTodos_def Let_def split: option.splits)

lemma idCounter_bulkToggleTodos: "idCounter (fst (bulkToggleTodos s ids)) = idCounter s"
  by (simp add: bulkToggleTodos_def Let_def clearCache_def split: prod.splits)

lemma idCounter_bulkDeleteTodos: "idCounter (fst (bulkDeleteTodos s ids)) = idCounter s"
  by (simp add: bulkDeleteTodos_def Let_def clearCache_def)

lemma map_update_id: "f y = f (xs ! k) \<Longrightarrow> map f (xs[k := y]) = map f xs"
  by (metis list_update_id map_update)

lemma ids_ok_same:
  "ids_ok s \<Longrightarrow> map id_num (records s') = map id_num (records s) \<Longrightarrow>
   idCounter s' = idCounter s \<Longrightarrow> ids_ok s'"
  unfolding ids_ok_def by (metis (no_types, lifting) image_set imageE imageI)

lemma ids_ok_apply_op:
  assumes "heap_ok s" "ids_ok s" "idCounter s < 2 ^ 53"
  shows "ids_ok (apply_op s opn)"
proof (cases opn)
  case (Query status q)
  with assms show ?thesis
    by (auto intro!: ids_ok_same[of s] simp add: records_getTodos idCounter_getTodos)
next
  case (Create ttl descr now)
  show ?thesis
  proof (cases "trim ttl = []")
    case True
    with assms Create show ?thesis by (simp add: createTodo_def)
  next
    case False
    with createTodo_cases[of s ttl descr now] increment_exact[OF assms(3)]
    have "idCounter (fst (createTodo s ttl descr now)) = Suc (idCounter s)" by auto
    with assms(1,2) Create records_createTodo[OF assms(1) False, of descr now] show ?thesis
      by (auto simp add: ids_ok_def)
  qed
next
  case (Update i u)
  from updateTodo_cases[of s i u] show ?thesis
  proof (elim disjE exE conjE)
    fix s' r assume u: "updateTodo s i u = (s', Inr (Some r))" and c: "idCounter s' = idCounter s"
    from records_updateTodo[OF assms(1) u] obtain k new where
      k: "findIndex (\<lambda>t. id_num t = i) (records s) = Some k"
      and v: "validateTitle u (spread (records s ! k) u) = Inr new"
      and r: "records s' = (records s)[k := new]" by blast
    from v have "id_num new = id_num (records s ! k)" by (simp add: validateTitle_id)
    with r have "map id_num (records s') = map id_num (records s)"
      by (metis list_update_id map_update)
    with assms c Update u show ?thesis by (auto intro: ids_ok_same[of s])
  qed (use assms Update in simp_all)
next
  case (Toggle i)
  have "map id_num (records (fst (toggleTodo s i))) = map id_num (records s)"
    by (simp add: records_toggleTodo[OF assms(1)] map_update_id split: option.splits)
  moreover from toggleTodo_cases[of s i]
  have "idCounter (fst (toggleTodo s i)) = idCounter s" by auto
  ultimately show ?thesis using assms Toggle by (auto intro: ids_ok_same[of s])
next
  case (Delete i)
  from deleteTodo_cases[of s i]
  have c: "idCounter (fst (deleteTodo s i)) = idCounter s" by auto
  show ?thesis
  proof (cases "findIndex (\<lambda>t. id_num t = i) (records s)")
    case None
    with assms Delete c show ?thesis
      by (auto intro!: ids_ok_same[of s] simp add: records_deleteTodo)
  next
    case (Some k)
    from assms(2) have "distinct (map id_num (records s))" by (simp add: ids_ok_def)
    from distinct_take_drop[OF this, of k]
    have "distinct (map id_num (take k (records s) @ drop (Suc k) (records s)))"
      by (simp add: take_map drop_map)
    with assms Delete c Some show ?thesis
      by (auto simp add: ids_ok_def records_deleteTodo dest: in_set_takeD in_set_dropD)
  qed
next
  case (BulkToggle ids)
  have "map id_num (records (fst (bulkToggleTodos s ids))) = map id_num (records s)"
    by (simp add: records_bulkToggleTodos[OF assms(1)])
  with assms BulkToggle show ?thesis
    by (auto intro: ids_ok_same[of s] simp add: idCounter_bulkToggleTodos)
next
  case (BulkDelete ids)
  with assms show ?thesis
    by (auto simp add: ids_ok_def records_bulkDeleteTodos idCounter_bulkDeleteTodos
        distinct_map_filter)
next
  case Stats
  with assms show ?thesis by simp
next
  case ClearAll
  then show ?thesis by (simp add: ids_ok_def records_clearAllTodos)
qed

lemma store_inv_init: "store_inv init_store"
proof -
  have "queryCache init_store = []"
    by (simp add: init_store_def)
  then show ?thesis
    by (simp add: store_inv_def heap_ok_init cache_ok_empty cache_bounded_empty)
qed

lemma store_inv_apply_op: "store_inv s \<Longrightarrow> store_inv (apply_op s opn)"
  by (simp add: store_inv_def heap_ok_apply_op cache_ok_apply_op cache_bounded_apply_op)

lemma store_inv_run: "store_inv s \<Longrightarrow> store_inv (run s ops)"
  unfolding run_def by (induction ops arbitrary: s) (simp_all add: store_inv_apply_op)

lemma store_inv_reachable: "store_inv (run init_store ops)"
  by (simp add: store_inv_run store_inv_init)

lemma heap_ok_reachable: "heap_ok (run init_store ops)"
  using store_inv_reachable[of ops] by (simp add: store_inv_def)

lemma run_snoc: "run s (ops @ [opn]) = apply_op (run s ops) opn"
  by (simp add: run_def)

lemma run_Cons: "run s (opn # ops) = run (apply_op s opn) ops"
  by (simp add: run_def)

lemma idCounter_apply_op: "opn \<noteq> ClearAll \<Longrightarrow> idCounter s \<le> idCounter (apply_op s opn)"
proof (cases opn)
  case (Create ttl descr now)
  with createTodo_cases[of s ttl descr now] increment_ge[of "idCounter s"] show ?thesis by auto
next
  case (Update i u)
  with updateTodo_cases[of s i u] show ?thesis by auto
next
  case (Toggle i)
  with toggleTodo_cases[of s i] show ?thesis by auto
next
  case (Delete i)
  with deleteTodo_cases[of s i] show ?thesis by auto
qed (simp_all add: idCounter_getTodos idCounter_bulkToggleTodos idCounter_bulkDeleteTodos)

lemma ids_ok_reachable:
  "idCounter (run init_store ops) < 2 ^ 53 \<Longrightarrow> ids_ok (run init_store ops)"
proof (induction ops rule: rev_induct)
  case Nil
  have "records init_store = []" by (simp add: init_store_def records_def todosArr_def)
  then show ?case by (simp add: run_def ids_ok_def)
next
  case (snoc opn ops)
  show ?case
  proof (cases "opn = ClearAll")
    case True
    then show ?thesis by (simp add: run_snoc ids_ok_def records_clearAllTodos)
  next
    case False
    from idCounter_apply_op[OF False, of "run init_store ops"] snoc.prems
    have b: "idCounter (run init_store ops) < 2 ^ 53" by (simp add: run_snoc)
    from ids_ok_apply_op[OF heap_ok_reachable snoc.IH[OF b] b] show ?thesis
      by (simp add: run_snoc)
  qed
qed

section \<open>Queries\<close>

lemma includes_str_sublist: "includes_str s sub \<longleftrightarrow> sublist sub s"
  by (induction s) (simp_all add: sublist_Cons_right)

lemma filters_by_value:
  "map (deref s) (search_filter s q (status_filter s status xs)) =
   query_spec (map (deref s) xs) status q"
proof -
  have st: "map (deref s) (status_filter s status xs) =
            filter (matches_status status) (map (deref s) xs)"
    by (auto simp add: status_filter_def matches_status_def Let_def filter_map o_def)
  have "map (deref s) (search_filter s q ys) = filter (matches_text q) (map (deref s) ys)" for ys
  proof (cases "q = []")
    case True
    then show ?thesis by (simp add: search_filter_def matches_text_def)
  next
    case False
    then have "toLowerCase q \<noteq> []" by (simp add: toLowerCase_def)
    then have d: "(description t \<noteq> [] \<and> sublist (toLowerCase q) (toLowerCase (description t)))
        \<longleftrightarrow> sublist (toLowerCase q) (toLowerCase (description t))" for t
      by (auto simp add: toLowerCase_def)
    from False show ?thesis
      by (simp add: search_filter_def matches_text_def Let_def filter_map o_def
          includes_str_sublist d)
  qed
  with st show ?thesis by (simp add: query_spec_def)
qed

lemma query_view_miss:
  assumes "heap_ok s" "map_of (queryCache s) (getCacheKey status q) = None"
  shows "query_view s status q = query_spec (records s) status q"
proof -
  let ?res = "search_filter s q (status_filter s status (todosArr s))"
  have "query_view s status q = map (\<lambda>r. objs s ! r) ?res"
    using assms(2) by (simp add: query_view_def getTodos_def Let_def view_def deref_def)
  then show ?thesis
    using filters_by_value[of s q status "todosArr s"] by (simp add: deref_eq records_def)
qed

lemma query_view_hit:
  assumes "cache_ok s" "map_of (queryCache s) (getCacheKey status q) = Some a"
  shows "query_view s status q = query_spec (records s) status q"
proof -
  from assms have "arrs s ! a = search_filter s q (status_filter s status (todosArr s))"
    by (simp add: cache_ok_def)
  then show ?thesis
    using assms(2) filters_by_value[of s q status "todosArr s"]
    by (simp add: query_view_def getTodos_hit view_def records_def)
qed

lemma query_view_inv:
  assumes "store_inv s"
  shows "query_view s status q = query_spec (records s) status q"
  using assms query_view_miss[of s status q] query_view_hit[of s status q]
  by (cases "map_of (queryCache s) (getCacheKey status q)") (auto simp add: store_inv_def)

lemma getTodos_again:
  "getTodos (fst (getTodos s status q)) status q = (fst (getTodos s status q), snd (getTodos s status q))"
proof (cases "map_of (queryCache s) (getCacheKey status q)")
  case None
  then have "map_of (queryCache (fst (getTodos s status q))) (getCacheKey status q)
      = Some (snd (getTodos s status q))"
    by (simp add: getTodos_def Let_def update_conv)
  then show ?thesis by (rule getTodos_hit)
next
  case (Some a)
  then show ?thesis by (simp add: getTodos_hit)
qed

text \<open>
  After any history of calls of the store's functions the array that \<open>getTodos\<close>
  returns holds the records that the filter of the specification selects from the
  collection as it is. The same query again returns the same array, and after any
  further call \<open>m\<close> the query gives the filter of the collection as \<open>m\<close> left it.
\<close>

lemma query_coherent_after_store_calls:
  "query_view (run init_store ops) status q = query_spec (records (run init_store ops)) status q \<and>
   getTodos (fst (getTodos (run init_store ops) status q)) status q =
     (fst (getTodos (run init_store ops) status q), snd (getTodos (run init_store ops) status q)) \<and>
   query_view (fst (getTodos (run init_store ops) status q)) status q =
     query_view (run init_store ops) status q \<and>
   query_view (apply_op (fst (getTodos (run init_store ops) status q)) m) status q =
     query_spec (records (apply_op (fst (getTodos (run init_store ops) status q)) m)) status q"
proof -
  let ?s = "run init_store ops"
  let ?s1 = "fst (getTodos ?s status q)"
  have inv: "store_inv ?s" by (rule store_inv_reachable)
  then have inv1: "store_inv ?s1" using store_inv_apply_op[of ?s "Query status q"] by simp
  then have inv2: "store_inv (apply_op ?s1 m)" by (rule store_inv_apply_op)
  have "query_view ?s1 status q = query_view ?s status q"
    by (simp add: query_view_def getTodos_again split: prod.splits)
  with inv inv2 show ?thesis
    by (simp add: query_view_inv getTodos_again)
qed

text \<open>
  C1 says that in every state of the store the query gives the filter of the records as
  they are, whatever the cache holds. The code does not: \<open>getTodos\<close> puts in the cache the
  very array it returns (lines 59 and 61, and line 31 on a hit). After
  \<open>createTodo({ title: "Buy milk" })\<close> and \<open>r = getTodos()\<close>, a caller that empties \<open>r\<close>
  leaves the emptied array in the cache: the collection still holds the record, the
  filter of the specification selects it, and the same query returns the same array, now
  empty.
\<close>

theorem query_stale_after_caller_write:
  "snd (getTodos (caller_write (fst (getTodos (run init_store [Create ''Buy milk'' '''' ''t0'']) ''all'' ''''))
       (snd (getTodos (run init_store [Create ''Buy milk'' '''' ''t0'']) ''all'' '''')) []) ''all'' '''') =
     snd (getTodos (run init_store [Create ''Buy milk'' '''' ''t0'']) ''all'' '''') \<and>
   query_view (caller_write (fst (getTodos (run init_store [Create ''Buy milk'' '''' ''t0'']) ''all'' ''''))
       (snd (getTodos (run init_store [Create ''Buy milk'' '''' ''t0'']) ''all'' '''')) []) ''all'' '''' = [] \<and>
   query_spec (records (caller_write (fst (getTodos (run init_store [Create ''Buy milk'' '''' ''t0'']) ''all'' ''''))
       (snd (getTodos (run init_store [Create ''Buy milk'' '''' ''t0'']) ''all'' '''')) [])) ''all'' '''' =
     [\<lparr>id_num = 1, title = ''Buy milk'', description = '''', completed = False, createdAt = ''t0''\<rparr>]"
  by code_simp

text \<open>The state after the caller's write is one whose references are all sound.\<close>

lemma caller_write_keeps_references_sound:
  "heap_ok (caller_write (fst (getTodos (run init_store [Create ''Buy milk'' '''' ''t0'']) ''all'' ''''))
       (snd (getTodos (run init_store [Create ''Buy milk'' '''' ''t0'']) ''all'' '''')) [])"
  by code_simp

text \<open>
  C2. On a cache miss \<open>getTodos\<close> keeps, of the collection, the records that pass the
  status filter (every record when the status is \<open>all\<close>, otherwise those whose \<open>completed\<close>
  equals \<open>status = completed\<close>) and then, when the text is not empty, those whose
  lower-cased title or description contains the lower-cased text as a contiguous run. The
  result is a subsequence of the collection, so the insertion order is kept. With status
  \<open>all\<close> and the empty text the result is the whole collection, on a miss and in every
  reachable state.
\<close>

theorem getTodos_filters:
  "(heap_ok s \<and> map_of (queryCache s) (getCacheKey status q) = None \<longrightarrow>
      query_view s status q =
        filter (\<lambda>t. q = [] \<or> sublist (toLowerCase q) (toLowerCase (title t))
                           \<or> sublist (toLowerCase q) (toLowerCase (description t)))
          (filter (\<lambda>t. status = ''all'' \<or> completed t = (status = ''completed'')) (records s)) \<and>
      subseq (query_view s status q) (records s) \<and>
      (status = ''all'' \<and> q = [] \<longrightarrow> query_view s status q = records s)) \<and>
   query_view (run init_store ops) ''all'' [] = records (run init_store ops)"
proof -
  have spec: "query_spec rs status q =
      filter (\<lambda>t. q = [] \<or> sublist (toLowerCase q) (toLowerCase (title t))
                           \<or> sublist (toLowerCase q) (toLowerCase (description t)))
          (filter (\<lambda>t. status = ''all'' \<or> completed t = (status = ''completed'')) rs)" for rs
    unfolding query_spec_def
    by (simp add: matches_status_def[abs_def] matches_text_def[abs_def])
  have all: "query_spec rs ''all'' [] = rs" for rs
    by (simp add: query_spec_def matches_status_def matches_text_def)
  have sub: "subseq (query_spec rs status q) rs" for rs
    unfolding query_spec_def by (rule subseq_order.trans[OF subseq_filter_left subseq_filter_left])
  have "query_view (run init_store ops) ''all'' [] = records (run init_store ops)"
    using query_view_inv[OF store_inv_reachable, of ops "''all''" "[]"] all by simp
  moreover have "query_view s status q = query_spec (records s) status q"
    if "heap_ok s" "map_of (queryCache s) (getCacheKey status q) = None"
    using that by (rule query_view_miss)
  ultimately show ?thesis
    using spec[of "records s"] sub[of "records s"] all[of "records s"] by auto
qed

theorem getTodos_filters_witness:
  "heap_ok (run init_store [Create ''Buy milk'' '''' ''t0'', Create ''Pay bills'' ''Milk money'' ''t1'',
       Create ''Walk'' '''' ''t2'', Toggle 2]) \<and>
   map_of (queryCache (run init_store [Create ''Buy milk'' '''' ''t0'',
       Create ''Pay bills'' ''Milk money'' ''t1'', Create ''Walk'' '''' ''t2'', Toggle 2]))
     (getCacheKey ''active'' ''MILK'') = None \<and>
   query_view (run init_store [Create ''Buy milk'' '''' ''t0'', Create ''Pay bills'' ''Milk money'' ''t1'',
       Create ''Walk'' '''' ''t2'', Toggle 2]) ''active'' ''MILK'' =
     [\<lparr>id_num = 1, title = ''Buy milk'', description = '''', completed = False, createdAt = ''t0''\<rparr>] \<and>
   map_of (queryCache (run init_store [Create ''Buy milk'' '''' ''t0'',
       Create ''Pay bills'' ''Milk money'' ''t1'', Create ''Walk'' '''' ''t2'', Toggle 2]))
     (getCacheKey ''all'' []) = None \<and>
   query_view (run init_store [Create ''Buy milk'' '''' ''t0'', Create ''Pay bills'' ''Milk money'' ''t1'',
       Create ''Walk'' '''' ''t2'', Toggle 2]) ''all'' [] =
     records (run init_store [Create ''Buy milk'' '''' ''t0'', Create ''Pay bills'' ''Milk money'' ''t1'',
       Create ''Walk'' '''' ''t2'', Toggle 2])"
proof -
  let ?s = "run init_store [Create ''Buy milk'' '''' ''t0'', Create ''Pay bills'' ''Milk money'' ''t1'',
       Create ''Walk'' '''' ''t2'', Toggle 2]"
  have h: "heap_ok ?s" by code_simp
  have m: "map_of (queryCache ?s) (getCacheKey ''active'' ''MILK'') = None" by code_simp
  have m': "map_of (queryCache ?s) (getCacheKey ''all'' []) = None" by code_simp
  have e: "filter (\<lambda>t. ''MILK'' = [] \<or> sublist (toLowerCase ''MILK'') (toLowerCase (title t))
                           \<or> sublist (toLowerCase ''MILK'') (toLowerCase (description t)))
          (filter (\<lambda>t. ''active'' = ''all'' \<or> completed t = (''active'' = ''completed'')) (records ?s))
      = [\<lparr>id_num = 1, title = ''Buy milk'', description = '''', completed = False, createdAt = ''t0''\<rparr>]"
    by code_simp
  from getTodos_filters[of ?s "''active''" "''MILK''"] h m
  have "query_view ?s ''active'' ''MILK'' =
     filter (\<lambda>t. ''MILK'' = [] \<or> sublist (toLowerCase ''MILK'') (toLowerCase (title t))
                           \<or> sublist (toLowerCase ''MILK'') (toLowerCase (description t)))
          (filter (\<lambda>t. ''active'' = ''all'' \<or> completed t = (''active'' = ''completed'')) (records ?s))"
    by blast
  moreover from getTodos_filters[of ?s "''all''" "[]"] h m'
  have "query_view ?s ''all'' [] = records ?s" by blast
  ultimately show ?thesis using e h m m' by (simp only: simp_thms)
qed

lemma dropWhile_all: "(\<forall>x\<in>set (dropWhile P xs). P x) \<longleftrightarrow> (\<forall>x\<in>set xs. P x)"
proof
  assume a: "\<forall>x\<in>set (dropWhile P xs). P x"
  have "dropWhile P xs = []"
  proof (rule ccontr)
    assume n: "dropWhile P xs \<noteq> []"
    then have "\<not> P (hd (dropWhile P xs))" by (rule hd_dropWhile)
    moreover from n have "hd (dropWhile P xs) \<in> set (dropWhile P xs)" by simp
    ultimately show False using a by blast
  qed
  then show "\<forall>x\<in>set xs. P x" by (simp add: dropWhile_eq_Nil_conv)
next
  assume "\<forall>x\<in>set xs. P x"
  then show "\<forall>x\<in>set (dropWhile P xs). P x" by (auto dest: set_dropWhileD)
qed

lemma trim_empty: "trim s = [] \<longleftrightarrow> (\<forall>c\<in>set s. isWhiteSpace c)"
  by (simp add: trim_def dropWhile_eq_Nil_conv dropWhile_all)

text \<open>
  C3. \<open>createTodo\<close> raises the error \<open>Title is required\<close> exactly when the title is
  empty after \<open>trim\<close>, which is when every character of it is white space, and then
  it changes nothing. Otherwise it returns a new object with the counter's value as id,
  the trimmed title and \<open>completed = false\<close>, appended at the end of the collection,
  and the counter has gone through \<open>idCounter++\<close>: it is one more, as long as it was
  below \<open>2 ^ 53\<close>.
\<close>

theorem createTodo_validates:
  "heap_ok s \<Longrightarrow>
   (isl (snd (createTodo s ttl descr now)) \<longleftrightarrow> trim ttl = []) \<and>
   (trim ttl = [] \<longleftrightarrow> (\<forall>c\<in>set ttl. isWhiteSpace c)) \<and>
   (trim ttl = [] \<longrightarrow> createTodo s ttl descr now = (s, Inl ValidationError)) \<and>
   (trim ttl \<noteq> [] \<longrightarrow>
      snd (createTodo s ttl descr now) = Inr (length (objs s)) \<and>
      deref (fst (createTodo s ttl descr now)) (length (objs s)) =
        \<lparr>id_num = idCounter s, title = trim ttl, description = descr, completed = False,
         createdAt = now\<rparr> \<and>
      records (fst (createTodo s ttl descr now)) =
        records s @ [deref (fst (createTodo s ttl descr now)) (length (objs s))] \<and>
      idCounter (fst (createTodo s ttl descr now)) = increment (idCounter s) \<and>
      (idCounter s < 2 ^ 53 \<longrightarrow>
         idCounter (fst (createTodo s ttl descr now)) = idCounter s + 1))"
proof -
  assume h: "heap_ok s"
  have d: "deref (fst (createTodo s ttl descr now)) (length (objs s)) =
        \<lparr>id_num = idCounter s, title = trim ttl, description = descr, completed = False,
         createdAt = now\<rparr>" if "trim ttl \<noteq> []"
    using that by (simp add: createTodo_def Let_def clearCache_def deref_def)
  show ?thesis
    using createTodo_cases[of s ttl descr now] records_createTodo[OF h, of ttl descr now] d
      increment_exact[of "idCounter s"]
    by (auto simp add: trim_empty)
qed

theorem createTodo_validates_witness:
  "heap_ok init_store \<and> trim ''  Buy milk '' \<noteq> [] \<and> trim [CHR 0x20, CHR 0x09, CHR 0xA0] = [] \<and>
   createTodo init_store [CHR 0x20, CHR 0x09, CHR 0xA0] ''d'' ''t0'' = (init_store, Inl ValidationError) \<and>
   records (fst (createTodo init_store ''  Buy milk '' ''d'' ''t0'')) =
     records init_store @ [deref (fst (createTodo init_store ''  Buy milk '' ''d'' ''t0'')) (length (objs init_store))] \<and>
   deref (fst (createTodo init_store ''  Buy milk '' ''d'' ''t0'')) (length (objs init_store)) =
     \<lparr>id_num = idCounter init_store, title = trim ''  Buy milk '', description = ''d'', completed = False,
      createdAt = ''t0''\<rparr> \<and>
   idCounter init_store < 2 ^ 53 \<and>
   idCounter (fst (createTodo init_store ''  Buy milk '' ''d'' ''t0'')) = idCounter init_store + 1"
proof -
  have h: "heap_ok init_store" by code_simp
  have t1: "trim ''  Buy milk '' \<noteq> []" by code_simp
  have t2: "trim [CHR 0x20, CHR 0x09, CHR 0xA0] = []" by code_simp
  have c: "idCounter init_store < 2 ^ 53" by (simp add: init_store_def)
  from createTodo_validates[OF h, of "''  Buy milk ''" "''d''" "''t0''"]
    createTodo_validates[OF h, of "[CHR 0x20, CHR 0x09, CHR 0xA0]" "''d''" "''t0''"] h t1 t2 c
  show ?thesis by blast
qed

section \<open>Single operations\<close>

lemma objs_getTodos: "objs (fst (getTodos s status q)) = objs s"
  by (simp add: getTodos_def Let_def split: option.splits)

lemma todosArr_getTodos: "heap_ok s \<Longrightarrow> todosArr (fst (getTodos s status q)) = todosArr s"
  using heap_ok_todos[of s]
  by (simp add: getTodos_def Let_def todosArr_def nth_append split: option.splits)

text \<open>
  C8. When no record of the collection has the id, \<open>deleteTodo\<close> returns the not-found
  value and the state it was given: collection, counter and cache are what they were.
  So a query, the failed delete and the same query again give the same array both times,
  the second time from the cache, and the state after the second query is the state
  after the first.
\<close>

theorem deleteTodo_not_found:
  "heap_ok s \<Longrightarrow> \<forall>t\<in>set (records s). id_num t \<noteq> i \<Longrightarrow>
   deleteTodo s i = (s, None) \<and>
   deleteTodo (fst (getTodos s status q)) i = (fst (getTodos s status q), None) \<and>
   getTodos (fst (deleteTodo (fst (getTodos s status q)) i)) status q = getTodos s status q \<and>
   query_view (fst (deleteTodo (fst (getTodos s status q)) i)) status q = query_view s status q"
proof -
  assume h: "heap_ok s" and n: "\<forall>t\<in>set (records s). id_num t \<noteq> i"
  let ?s1 = "fst (getTodos s status q)"
  have nf: "deleteTodo s' i = (s', None)" if "\<forall>t\<in>set (records s'). id_num t \<noteq> i" for s'
  proof -
    from that have "findIndex (\<lambda>t. id_num t = i) (records s') = None"
      by (simp add: findIndex_None)
    then show ?thesis by (simp add: deleteTodo_def findIndex_records)
  qed
  have "records ?s1 = records s" using h by (rule records_getTodos)
  with n have d1: "deleteTodo ?s1 i = (?s1, None)" by (intro nf) simp
  have g: "getTodos ?s1 status q = (?s1, snd (getTodos s status q))" by (rule getTodos_again)
  have "query_view ?s1 status q = query_view s status q"
    by (simp add: query_view_def g split: prod.splits)
  with n d1 g show ?thesis by (simp add: nf)
qed

theorem deleteTodo_not_found_witness:
  "heap_ok (run init_store [Create ''Buy milk'' '''' ''t0'']) \<and>
   7 \<notin> set (map id_num (records (run init_store [Create ''Buy milk'' '''' ''t0'']))) \<and>
   deleteTodo (run init_store [Create ''Buy milk'' '''' ''t0'']) 7 =
     (run init_store [Create ''Buy milk'' '''' ''t0''], None) \<and>
   getTodos (fst (deleteTodo (fst (getTodos (run init_store [Create ''Buy milk'' '''' ''t0'']) ''all'' ''milk'')) 7))
       ''all'' ''milk'' =
     getTodos (run init_store [Create ''Buy milk'' '''' ''t0'']) ''all'' ''milk''"
proof -
  let ?s = "run init_store [Create ''Buy milk'' '''' ''t0'']"
  have h: "heap_ok ?s" by code_simp
  have m: "7 \<notin> set (map id_num (records ?s))" by code_simp
  then have n: "\<forall>t\<in>set (records ?s). id_num t \<noteq> 7" by auto
  from deleteTodo_not_found[OF h n, of "''all''" "''milk''"] h m show ?thesis by blast
qed

text \<open>
  C10. A call of \<open>createTodo\<close> or \<open>updateTodo\<close> that raises an error returns the state it
  was given, whole: collection, objects, counter and cache. \<open>updateTodo\<close> raises whenever
  the record exists and the supplied title is empty after \<open>trim\<close>, whatever the other
  supplied fields are.
\<close>

theorem validation_failure_atomic:
  "(isl (snd (createTodo s ttl descr now)) \<longrightarrow> fst (createTodo s ttl descr now) = s) \<and>
   (isl (snd (updateTodo s i u)) \<longrightarrow> fst (updateTodo s i u) = s) \<and>
   (trim ttl = [] \<longrightarrow> createTodo s ttl descr now = (s, Inl ValidationError)) \<and>
   (findIndex (\<lambda>t. id_num t = i) (records s) \<noteq> None \<and> u_title u = Some ttl \<and> trim ttl = [] \<longrightarrow>
      updateTodo s i u = (s, Inl ValidationError))"
proof -
  have "updateTodo s i u = (s, Inl ValidationError)"
    if "findIndex (\<lambda>t. id_num t = i) (records s) \<noteq> None" "u_title u = Some ttl" "trim ttl = []"
    using that
    by (auto simp add: updateTodo_def findIndex_records validateTitle_def Let_def
        split: option.splits)
  then show ?thesis
    using createTodo_cases[of s ttl descr now] updateTodo_cases[of s i u] by auto
qed

theorem validation_failure_atomic_witness:
  "findIndex (\<lambda>t. id_num t = 1) (records (run init_store [Create ''Buy milk'' '''' ''t0'', Query ''all'' ''''])) \<noteq> None \<and>
   u_title \<lparr>u_title = Some ''   '', u_description = Some ''new'', u_completed = Some True\<rparr> = Some ''   '' \<and>
   trim ''   '' = [] \<and>
   updateTodo (run init_store [Create ''Buy milk'' '''' ''t0'', Query ''all'' '''']) 1
       \<lparr>u_title = Some ''   '', u_description = Some ''new'', u_completed = Some True\<rparr> =
     (run init_store [Create ''Buy milk'' '''' ''t0'', Query ''all'' ''''], Inl ValidationError) \<and>
   createTodo (run init_store [Create ''Buy milk'' '''' ''t0'', Query ''all'' '''']) ''   '' ''d'' ''t1'' =
     (run init_store [Create ''Buy milk'' '''' ''t0'', Query ''all'' ''''], Inl ValidationError)"
proof -
  let ?s = "run init_store [Create ''Buy milk'' '''' ''t0'', Query ''all'' '''']"
  let ?u = "\<lparr>u_title = Some ''   '', u_description = Some ''new'', u_completed = Some True\<rparr>"
  have f: "findIndex (\<lambda>t. id_num t = 1) (records ?s) \<noteq> None" by code_simp
  have t: "trim ''   '' = []" by code_simp
  have u: "u_title ?u = Some ''   ''" by simp
  from validation_failure_atomic[of ?s "''   ''" "''d''" "''t1''" 1 ?u] f t u
  show ?thesis by blast
qed

text \<open>
  C5. \<open>updateTodo\<close> on an id that no record has returns the not-found value and the
  state unchanged. On the first record with the id: when a title is supplied and is empty
  after \<open>trim\<close> it raises the error; otherwise the record at that place is replaced by
  an object that differs from it in the supplied fields only (the title trimmed), with
  the same id and \<open>createdAt\<close>, every other record and the counter stay, and the new object
  is returned.
\<close>

theorem updateTodo_frame:
  "heap_ok s \<Longrightarrow>
   (case findIndex (\<lambda>t. id_num t = i) (records s) of
      None \<Rightarrow> updateTodo s i u = (s, Inr None)
    | Some k \<Rightarrow>
        if (case u_title u of None \<Rightarrow> False | Some t \<Rightarrow> trim t = [])
        then updateTodo s i u = (s, Inl ValidationError)
        else snd (updateTodo s i u) = Inr (Some (length (objs s))) \<and>
             deref (fst (updateTodo s i u)) (length (objs s)) =
               (records s ! k)\<lparr>title := (case u_title u of None \<Rightarrow> title (records s ! k) | Some t \<Rightarrow> trim t),
                   description := (case u_description u of None \<Rightarrow> description (records s ! k) | Some d \<Rightarrow> d),
                   completed := (case u_completed u of None \<Rightarrow> completed (records s ! k) | Some c \<Rightarrow> c)\<rparr> \<and>
             records (fst (updateTodo s i u)) =
               (records s)[k := deref (fst (updateTodo s i u)) (length (objs s))] \<and>
             id_num (deref (fst (updateTodo s i u)) (length (objs s))) = id_num (records s ! k) \<and>
             createdAt (deref (fst (updateTodo s i u)) (length (objs s))) = createdAt (records s ! k) \<and>
             idCounter (fst (updateTodo s i u)) = idCounter s)"
proof -
  assume h: "heap_ok s"
  show ?thesis
  proof (cases "findIndex (\<lambda>t. id_num t = i) (records s)")
    case None
    then show ?thesis by (simp add: updateTodo_def findIndex_records)
  next
    case (Some k)
    show ?thesis
    proof (cases "case u_title u of None \<Rightarrow> False | Some t \<Rightarrow> trim t = []")
      case True
      with Some show ?thesis
        by (auto simp add: updateTodo_def findIndex_records validateTitle_def Let_def
            split: option.splits)
    next
      case False
      let ?old = "records s ! k"
      let ?new = "?old\<lparr>title := (case u_title u of None \<Rightarrow> title ?old | Some t \<Rightarrow> trim t),
                   description := (case u_description u of None \<Rightarrow> description ?old | Some d \<Rightarrow> d),
                   completed := (case u_completed u of None \<Rightarrow> completed ?old | Some c \<Rightarrow> c)\<rparr>"
      from Some have kl: "k < length (todosArr s)"
        by (auto dest: findIndex_Some simp add: records_def)
      then have old: "deref s (todosArr s ! k) = ?old" by (simp add: records_def)
      from False have v: "validateTitle u (spread ?old u) = Inr ?new"
        by (auto simp add: validateTitle_def spread_def Let_def split: option.splits)
      obtain s' where u: "updateTodo s i u = (s', Inr (Some (length (objs s))))"
        and c: "idCounter s' = idCounter s"
        using Some v old
        by (auto simp add: updateTodo_def findIndex_records Let_def clearCache_def)
      from records_updateTodo[OF h u] Some v
      have "records s' = (records s)[k := ?new]" and "deref s' (length (objs s)) = ?new"
        by auto
      with Some False u c show ?thesis by simp
    qed
  qed
qed

theorem updateTodo_frame_witness:
  "heap_ok (run init_store [Create ''Buy milk'' '''' ''t0'', Create ''Pay bills'' ''utilities'' ''t1'']) \<and>
   records (fst (updateTodo (run init_store [Create ''Buy milk'' '''' ''t0'', Create ''Pay bills'' ''utilities'' ''t1'']) 2
       \<lparr>u_title = Some '' Pay rent '', u_description = None, u_completed = Some True\<rparr>)) =
   [\<lparr>id_num = 1, title = ''Buy milk'', description = '''', completed = False, createdAt = ''t0''\<rparr>,
    \<lparr>id_num = 2, title = ''Pay rent'', description = ''utilities'', completed = True, createdAt = ''t1''\<rparr>] \<and>
   updateTodo (run init_store [Create ''Buy milk'' '''' ''t0'', Create ''Pay bills'' ''utilities'' ''t1'']) 2
       \<lparr>u_title = Some ''  '', u_description = Some ''rent'', u_completed = None\<rparr> =
     (run init_store [Create ''Buy milk'' '''' ''t0'', Create ''Pay bills'' ''utilities'' ''t1''],
      Inl ValidationError) \<and>
   updateTodo (run init_store [Create ''Buy milk'' '''' ''t0'', Create ''Pay bills'' ''utilities'' ''t1'']) 9
       \<lparr>u_title = Some ''Pay rent'', u_description = None, u_completed = None\<rparr> =
     (run init_store [Create ''Buy milk'' '''' ''t0'', Create ''Pay bills'' ''utilities'' ''t1''], Inr None)"
proof -
  let ?s = "run init_store [Create ''Buy milk'' '''' ''t0'', Create ''Pay bills'' ''utilities'' ''t1'']"
  let ?u = "\<lparr>u_title = Some '' Pay rent '', u_description = None, u_completed = Some True\<rparr>"
  let ?v = "\<lparr>u_title = Some ''  '', u_description = Some ''rent'', u_completed = None\<rparr>"
  let ?w = "\<lparr>u_title = Some ''Pay rent'', u_description = None, u_completed = None\<rparr>"
  have h: "heap_ok ?s" by code_simp
  have f: "findIndex (\<lambda>t. id_num t = 2) (records ?s) = Some 1" by code_simp
  have g: "findIndex (\<lambda>t. id_num t = 9) (records ?s) = None" by code_simp
  have t: "trim '' Pay rent '' = ''Pay rent''" by code_simp
  have b: "trim ''  '' = []" by code_simp
  have r: "records ?s =
     [\<lparr>id_num = 1, title = ''Buy milk'', description = '''', completed = False, createdAt = ''t0''\<rparr>,
      \<lparr>id_num = 2, title = ''Pay bills'', description = ''utilities'', completed = False, createdAt = ''t1''\<rparr>]"
    by code_simp
  from updateTodo_frame[OF h, of 2 ?u]
  have 1: "records (fst (updateTodo ?s 2 ?u)) =
   [\<lparr>id_num = 1, title = ''Buy milk'', description = '''', completed = False, createdAt = ''t0''\<rparr>,
    \<lparr>id_num = 2, title = ''Pay rent'', description = ''utilities'', completed = True, createdAt = ''t1''\<rparr>]"
    by (simp add: f t r)
  from updateTodo_frame[OF h, of 2 ?v]
  have 2: "updateTodo ?s 2 ?v = (?s, Inl ValidationError)" by (simp add: f b)
  from updateTodo_frame[OF h, of 9 ?w]
  have 3: "updateTodo ?s 9 ?w = (?s, Inr None)" by (simp add: g)
  from h 1 2 3 show ?thesis by (simp only: simp_thms)
qed

lemma bulkToggleTodos_result:
  assumes "heap_ok s"
  shows "snd (bulkToggleTodos s ids) = filter (\<lambda>r. id_num (deref s r) \<in> set ids) (todosArr s)"
proof -
  obtain os upd where f: "fold (bulkToggle_step (set ids)) (todosArr s) (objs s, []) = (os, upd)"
    by (cases "fold (bulkToggle_step (set ids)) (todosArr s) (objs s, [])")
  from assms have d: "distinct (todosArr s)" and b: "\<forall>r\<in>set (todosArr s). r < length (objs s)"
    by (simp_all add: heap_ok_alt todosArr_def heap_ok_refs)
  from bulkToggle_fold[OF d b f] f show ?thesis
    by (simp add: bulkToggleTodos_def Let_def deref_def)
qed

lemma filter_refs_empty:
  "filter (\<lambda>r. id_num (deref s r) \<in> I) (todosArr s) = [] \<longleftrightarrow> (\<forall>t\<in>set (records s). id_num t \<notin> I)"
  by (auto simp add: filter_empty_conv records_def)

text \<open>
  C6. \<open>bulkToggleTodos\<close> negates \<open>completed\<close> in the records whose id is among \<open>ids\<close>,
  once each however often the id is listed, and leaves every other record as it is; it
  returns those records in the order of the collection; ids that no record has play no
  part. \<open>bulkDeleteTodos\<close> keeps the records whose id is not among \<open>ids\<close>, in their
  order, and returns the others. Each of them empties the cache when it returns at least
  one record and leaves the cache as it is when it returns none.
\<close>

theorem bulk_operations:
  "heap_ok s \<Longrightarrow>
   records (fst (bulkToggleTodos s ids)) =
     map (\<lambda>t. if id_num t \<in> set ids then t\<lparr>completed := \<not> completed t\<rparr> else t) (records s) \<and>
   map (deref (fst (bulkToggleTodos s ids))) (snd (bulkToggleTodos s ids)) =
     filter (\<lambda>t. id_num t \<in> set ids) (records (fst (bulkToggleTodos s ids))) \<and>
   (snd (bulkToggleTodos s ids) = [] \<longleftrightarrow> (\<forall>t\<in>set (records s). id_num t \<notin> set ids)) \<and>
   queryCache (fst (bulkToggleTodos s ids)) =
     (if snd (bulkToggleTodos s ids) = [] then queryCache s else []) \<and>
   records (fst (bulkDeleteTodos s ids)) = filter (\<lambda>t. id_num t \<notin> set ids) (records s) \<and>
   map (deref s) (snd (bulkDeleteTodos s ids)) = filter (\<lambda>t. id_num t \<in> set ids) (records s) \<and>
   (snd (bulkDeleteTodos s ids) = [] \<longleftrightarrow> (\<forall>t\<in>set (records s). id_num t \<notin> set ids)) \<and>
   queryCache (fst (bulkDeleteTodos s ids)) =
     (if snd (bulkDeleteTodos s ids) = [] then queryCache s else [])"
proof -
  assume h: "heap_ok s"
  let ?s1 = "fst (bulkToggleTodos s ids)"
  let ?f = "\<lambda>t. if id_num t \<in> set ids then t\<lparr>completed := \<not> completed t\<rparr> else t"
  note res = bulkToggleTodos_result[OF h, of ids]
  have r1: "records ?s1 = map ?f (records s)" using h by (rule records_bulkToggleTodos)
  have ta: "todosArr ?s1 = todosArr s"
    by (simp add: bulkToggleTodos_def Let_def clearCache_def todosArr_def split: prod.splits)
  have "map (deref ?s1) (filter (\<lambda>r. id_num (deref s r) \<in> set ids) (todosArr s)) =
        filter (\<lambda>t. id_num t \<in> set ids) (map ?f (map (deref s) (todosArr s)))"
  proof -
    have "map (deref ?s1) (todosArr s) = map ?f (map (deref s) (todosArr s))"
      using r1 ta by (simp add: records_def)
    then have e: "\<forall>r\<in>set (todosArr s). deref ?s1 r = ?f (deref s r)" by simp
    have "map (deref ?s1) (filter (\<lambda>r. id_num (deref s r) \<in> set ids) (todosArr s)) =
          map (\<lambda>r. ?f (deref s r)) (filter (\<lambda>r. id_num (deref s r) \<in> set ids) (todosArr s))"
      using e by (intro map_cong) simp_all
    also have "\<dots> = filter (\<lambda>t. id_num t \<in> set ids) (map ?f (map (deref s) (todosArr s)))"
      by (simp add: filter_map o_def if_distrib[of id_num] cong: if_cong)
    finally show ?thesis .
  qed
  then have r2: "map (deref ?s1) (snd (bulkToggleTodos s ids)) =
      filter (\<lambda>t. id_num t \<in> set ids) (records ?s1)"
    using res r1 by (simp add: records_def)
  have r3: "snd (bulkToggleTodos s ids) = [] \<longleftrightarrow> (\<forall>t\<in>set (records s). id_num t \<notin> set ids)"
    using res by (simp add: filter_refs_empty)
  have r4: "queryCache ?s1 = (if snd (bulkToggleTodos s ids) = [] then queryCache s else [])"
    using bulkToggleTodos_cases[OF h, of ids] by auto
  have d: "snd (bulkDeleteTodos s ids) = filter (\<lambda>r. id_num (deref s r) \<in> set ids) (todosArr s)"
    by (simp add: bulkDeleteTodos_def Let_def)
  have r5: "map (deref s) (snd (bulkDeleteTodos s ids)) = filter (\<lambda>t. id_num t \<in> set ids) (records s)"
    by (simp add: d records_def filter_map o_def)
  have r6: "snd (bulkDeleteTodos s ids) = [] \<longleftrightarrow> (\<forall>t\<in>set (records s). id_num t \<notin> set ids)"
    by (simp add: d filter_refs_empty)
  have r7: "queryCache (fst (bulkDeleteTodos s ids)) =
     (if snd (bulkDeleteTodos s ids) = [] then queryCache s else [])"
    by (simp add: bulkDeleteTodos_def Let_def clearCache_def)
  from r1 r2 r3 r4 records_bulkDeleteTodos[OF h, of ids] r5 r6 r7 show ?thesis by blast
qed

theorem bulk_operations_witness:
  "heap_ok (run init_store [Create ''a'' '''' ''t0'', Create ''b'' '''' ''t1'', Create ''c'' '''' ''t2'',
      Query ''all'' '''']) \<and>
   records (fst (bulkToggleTodos (run init_store [Create ''a'' '''' ''t0'', Create ''b'' '''' ''t1'',
      Create ''c'' '''' ''t2'', Query ''all'' '''']) [3, 9, 1, 3])) =
     [\<lparr>id_num = 1, title = ''a'', description = '''', completed = True, createdAt = ''t0''\<rparr>,
      \<lparr>id_num = 2, title = ''b'', description = '''', completed = False, createdAt = ''t1''\<rparr>,
      \<lparr>id_num = 3, title = ''c'', description = '''', completed = True, createdAt = ''t2''\<rparr>] \<and>
   records (fst (bulkDeleteTodos (run init_store [Create ''a'' '''' ''t0'', Create ''b'' '''' ''t1'',
      Create ''c'' '''' ''t2'', Query ''all'' '''']) [3, 9, 1, 3])) =
     [\<lparr>id_num = 2, title = ''b'', description = '''', completed = False, createdAt = ''t1''\<rparr>] \<and>
   queryCache (fst (bulkDeleteTodos (run init_store [Create ''a'' '''' ''t0'', Create ''b'' '''' ''t1'',
      Create ''c'' '''' ''t2'', Query ''all'' '''']) [3, 9, 1, 3])) = []"
proof -
  let ?s = "run init_store [Create ''a'' '''' ''t0'', Create ''b'' '''' ''t1'', Create ''c'' '''' ''t2'',
      Query ''all'' '''']"
  have h: "heap_ok ?s" by code_simp
  have r: "records ?s =
     [\<lparr>id_num = 1, title = ''a'', description = '''', completed = False, createdAt = ''t0''\<rparr>,
      \<lparr>id_num = 2, title = ''b'', description = '''', completed = False, createdAt = ''t1''\<rparr>,
      \<lparr>id_num = 3, title = ''c'', description = '''', completed = False, createdAt = ''t2''\<rparr>]"
    by code_simp
  from bulk_operations[OF h, of "[3, 9, 1, 3]"] show ?thesis
    using h by (simp add: r)
qed

section \<open>Identifiers\<close>

lemma created_ids_step:
  "created_ids s (opn # ops) =
     (case opn of
        Create ttl descr now \<Rightarrow> (if trim ttl = [] then [] else [idCounter s])
      | _ \<Rightarrow> []) @ created_ids (apply_op s opn) ops"
proof (cases opn)
  case (Create ttl descr now)
  show ?thesis
  proof (cases "trim ttl = []")
    case True
    with Create show ?thesis by (simp add: createTodo_def)
  next
    case False
    with Create show ?thesis
      by (simp add: createTodo_def Let_def clearCache_def deref_def)
  qed
qed simp_all

lemma idCounter_run_mono: "ClearAll \<notin> set ops \<Longrightarrow> idCounter s \<le> idCounter (run s ops)"
proof (induction ops arbitrary: s)
  case Nil
  then show ?case by (simp add: run_def)
next
  case (Cons opn ops)
  then have "idCounter s \<le> idCounter (apply_op s opn)"
    and "idCounter (apply_op s opn) \<le> idCounter (run (apply_op s opn) ops)"
    by (auto intro: idCounter_apply_op)
  then show ?case by (simp add: run_Cons)
qed

lemma idCounter_apply_op_le:
  "idCounter s \<le> 2 ^ 53 \<Longrightarrow>
   idCounter (apply_op s opn) \<le> Suc (idCounter s) \<and> idCounter (apply_op s opn) \<le> 2 ^ 53"
proof (cases opn)
  case (Create ttl descr now)
  assume "idCounter s \<le> 2 ^ 53"
  with Create createTodo_cases[of s ttl descr now] increment_le[of "idCounter s"]
  show ?thesis by auto
next
  case (Update i u)
  assume "idCounter s \<le> 2 ^ 53"
  with Update updateTodo_cases[of s i u] show ?thesis by auto
next
  case (Toggle i)
  assume "idCounter s \<le> 2 ^ 53"
  with Toggle toggleTodo_cases[of s i] show ?thesis by auto
next
  case (Delete i)
  assume "idCounter s \<le> 2 ^ 53"
  with Delete deleteTodo_cases[of s i] show ?thesis by auto
next
  case ClearAll
  then show ?thesis by (simp add: clearAllTodos_def Let_def clearCache_def)
qed (simp_all add: idCounter_getTodos idCounter_bulkToggleTodos idCounter_bulkDeleteTodos)

lemma idCounter_run_le:
  "idCounter s \<le> 2 ^ 53 \<Longrightarrow>
   idCounter (run s ops) \<le> idCounter s + length ops \<and> idCounter (run s ops) \<le> 2 ^ 53"
proof (induction ops rule: rev_induct)
  case Nil
  then show ?case by (simp add: run_def)
next
  case (snoc opn ops)
  from snoc.IH[OF snoc.prems] idCounter_apply_op_le[of "run s ops" opn]
  show ?case by (auto simp add: run_snoc)
qed

lemma created_ids_increasing:
  "ClearAll \<notin> set ops \<Longrightarrow> idCounter (run s ops) < 2 ^ 53 \<Longrightarrow>
   sorted_wrt (<) (created_ids s ops) \<and>
   (\<forall>i\<in>set (created_ids s ops). idCounter s \<le> i \<and> i < idCounter (run s ops))"
proof (induction ops arbitrary: s)
  case Nil
  then show ?case by simp
next
  case (Cons opn ops)
  let ?s1 = "apply_op s opn"
  from Cons.prems have n: "opn \<noteq> ClearAll" and n': "ClearAll \<notin> set ops"
    and b: "idCounter (run ?s1 ops) < 2 ^ 53"
    by (auto simp add: run_Cons)
  from Cons.IH[OF n' b] have IH: "sorted_wrt (<) (created_ids ?s1 ops)"
    "\<forall>i\<in>set (created_ids ?s1 ops). idCounter ?s1 \<le> i \<and> i < idCounter (run ?s1 ops)"
    by auto
  from idCounter_apply_op[OF n, of s] have le: "idCounter s \<le> idCounter ?s1" .
  from idCounter_run_mono[OF n', of ?s1] have le1: "idCounter ?s1 \<le> idCounter (run ?s1 ops)" .
  show ?case
  proof (cases opn)
    case (Create ttl descr now)
    show ?thesis
    proof (cases "trim ttl = []")
      case True
      with Create IH le show ?thesis
        by (auto simp add: created_ids_step run_Cons simp del: created_ids.simps)
    next
      case False
      from le le1 b have "idCounter s < 2 ^ 53" by simp
      with createTodo_cases[of s ttl descr now] Create False increment_exact[of "idCounter s"]
      have "idCounter ?s1 = Suc (idCounter s)" by auto
      with Create False IH le1 show ?thesis
        by (auto simp add: created_ids_step run_Cons simp del: created_ids.simps)
    qed
  qed (use IH le in \<open>auto simp add: created_ids_step run_Cons simp del: created_ids.simps\<close>)
qed

text \<open>
  Where the bound comes from: with the counter at \<open>2 ^ 53\<close> the double does not move, and
  two successive creates return the same id.
\<close>

lemma created_ids_saturated:
  assumes "idCounter s = 2 ^ 53" "trim t1 \<noteq> []" "trim t2 \<noteq> []"
  shows "created_ids s [Create t1 d1 n1, Create t2 d2 n2] = [2 ^ 53, 2 ^ 53]"
proof -
  from createTodo_cases[of s t1 d1 n1] assms(1,2)
  have "idCounter (apply_op s (Create t1 d1 n1)) = 2 ^ 53"
    by (auto simp add: increment_def)
  with assms show ?thesis
    by (simp add: created_ids_step del: created_ids.simps) simp
qed

text \<open>
  C4, as the code has it. In a history without \<open>clearAllTodos\<close> that leaves the counter
  below \<open>2 ^ 53\<close>, from any state and with any deletions in between, the ids that the
  successful \<open>createTodo\<close> calls return are strictly increasing, hence pairwise different,
  none is below the counter the history started with and all are below the counter it
  ends with. \<open>clearAllTodos\<close> sets the counter to 1. From the initial state the counter is
  at most one more than the number of calls made, so every history of fewer than
  \<open>2 ^ 53 - 1\<close> calls leaves it below \<open>2 ^ 53\<close>; and in every reachable state with the
  counter below \<open>2 ^ 53\<close> the records of the collection have pairwise different ids below
  the counter.
\<close>

theorem created_ids_strictly_increasing:
  "(ClearAll \<notin> set ops \<and> idCounter (run s ops) < 2 ^ 53 \<longrightarrow>
      sorted_wrt (<) (created_ids s ops) \<and> distinct (created_ids s ops) \<and>
      (\<forall>i\<in>set (created_ids s ops). idCounter s \<le> i \<and> i < idCounter (run s ops))) \<and>
   idCounter (fst (clearAllTodos s)) = 1 \<and>
   idCounter (run init_store ops) \<le> Suc (length ops) \<and>
   (idCounter (run init_store ops) < 2 ^ 53 \<longrightarrow>
      distinct (map id_num (records (run init_store ops))) \<and>
      (\<forall>t\<in>set (records (run init_store ops)). id_num t < idCounter (run init_store ops)))"
proof -
  have "distinct xs" if "sorted_wrt (<) xs" for xs :: "nat list"
    using that by (simp add: strict_sorted_iff)
  moreover have "idCounter (run init_store ops) \<le> Suc (length ops)"
    using idCounter_run_le[of init_store ops] by (simp add: init_store_def)
  moreover have "idCounter (fst (clearAllTodos s)) = 1"
    by (simp add: clearAllTodos_def Let_def clearCache_def)
  ultimately show ?thesis
    using created_ids_increasing[of ops s] ids_ok_reachable[of ops]
    by (auto simp add: ids_ok_def)
qed

theorem created_ids_strictly_increasing_witness:
  "ClearAll \<notin> set [Create ''a'' '''' ''t0'', Create ''  '' '''' ''t1'', Delete 1, Create ''b'' '''' ''t2'',
       BulkDelete [2], Create ''c'' '''' ''t3''] \<and>
   idCounter (run init_store [Create ''a'' '''' ''t0'', Create ''  '' '''' ''t1'', Delete 1,
       Create ''b'' '''' ''t2'', BulkDelete [2], Create ''c'' '''' ''t3'']) < 2 ^ 53 \<and>
   created_ids init_store [Create ''a'' '''' ''t0'', Create ''  '' '''' ''t1'', Delete 1, Create ''b'' '''' ''t2'',
       BulkDelete [2], Create ''c'' '''' ''t3''] = [1, 2, 3] \<and>
   sorted_wrt (<) (created_ids init_store [Create ''a'' '''' ''t0'', Create ''  '' '''' ''t1'', Delete 1,
       Create ''b'' '''' ''t2'', BulkDelete [2], Create ''c'' '''' ''t3'']) \<and>
   distinct (map id_num (records (run init_store [Create ''a'' '''' ''t0'', Create ''  '' '''' ''t1'',
       Delete 1, Create ''b'' '''' ''t2'', BulkDelete [2], Create ''c'' '''' ''t3''])))"
proof -
  let ?ops = "[Create ''a'' '''' ''t0'', Create ''  '' '''' ''t1'', Delete 1, Create ''b'' '''' ''t2'',
       BulkDelete [2], Create ''c'' '''' ''t3'']"
  have n: "ClearAll \<notin> set ?ops" by simp
  have "idCounter (run init_store ?ops) = 4" by code_simp
  then have b: "idCounter (run init_store ?ops) < 2 ^ 53" by simp
  have e: "created_ids init_store ?ops = [1, 2, 3]" by code_simp
  from created_ids_strictly_increasing[of ?ops init_store] n b e show ?thesis by blast
qed

text \<open>
  The claim C4 as it is worded, with \<open>clearAllTodos\<close> in the history, fails: after
  create, clearAll, create both calls have returned the id 1.
\<close>

theorem created_ids_counterexample:
  "created_ids init_store [Create ''a'' '''' ''t0'', ClearAll, Create ''b'' '''' ''t1''] = [1, 1] \<and>
   \<not> sorted_wrt (<) (created_ids init_store [Create ''a'' '''' ''t0'', ClearAll, Create ''b'' '''' ''t1'']) \<and>
   \<not> distinct (created_ids init_store [Create ''a'' '''' ''t0'', ClearAll, Create ''b'' '''' ''t1''])"
proof -
  have "created_ids init_store [Create ''a'' '''' ''t0'', ClearAll, Create ''b'' '''' ''t1''] = [1, 1]"
    by code_simp
  then show ?thesis by simp
qed

section \<open>Eviction\<close>

lemma run_queries_snoc:
  "run_queries s (qs @ [(status, q)]) = fst (getTodos (run_queries s qs) status q)"
  by (simp add: run_queries_def)

lemma distinct_keys:
  "distinct qs \<Longrightarrow> distinct (map (\<lambda>(status, q). getCacheKey status q) qs)"
  by (auto simp add: distinct_map inj_on_def dest: getCacheKey_inj)

lemma run_queries_keys:
  assumes "distinct qs" "queryCache s = []"
  shows "map fst (queryCache (run_queries s qs)) =
         drop (length qs - CACHE_SIZE_LIMIT) (map (\<lambda>(status, q). getCacheKey status q) qs)"
  using assms(1)
proof (induction qs rule: rev_induct)
  case Nil
  then show ?case by (simp add: run_queries_def assms(2))
next
  case (snoc p qs)
  obtain status q where p: "p = (status, q)" by (cases p)
  let ?key = "\<lambda>(status, q). getCacheKey status q"
  let ?c = "queryCache (run_queries s qs)"
  let ?n = "length qs"
  from snoc.prems have dq: "distinct qs" by simp
  from snoc.IH[OF dq] have K: "map fst ?c = drop (?n - CACHE_SIZE_LIMIT) (map ?key qs)" .
  from distinct_keys[OF snoc.prems] p have
    fresh: "getCacheKey status q \<notin> set (map ?key qs)" and dk: "distinct (map ?key qs)"
    by simp_all
  from fresh K have "getCacheKey status q \<notin> set (map fst ?c)"
    by (auto dest: in_set_dropD)
  then have miss: "map_of ?c (getCacheKey status q) = None"
    by (simp add: map_of_eq_None_iff)
  from K dk have dc: "distinct (map fst ?c)" by simp
  from K have lc: "length ?c = ?n - (?n - CACHE_SIZE_LIMIT)"
    by (metis length_drop length_map)
  have "map fst (evict ?c) = drop (Suc ?n - CACHE_SIZE_LIMIT) (map ?key qs)"
  proof (cases "?n < CACHE_SIZE_LIMIT")
    case True
    with lc have "length ?c < CACHE_SIZE_LIMIT" by simp
    with K True show ?thesis by (simp add: evict_below)
  next
    case False
    with lc have "CACHE_SIZE_LIMIT \<le> length ?c" by simp
    from evict_full[OF dc this] have "map fst (evict ?c) = tl (map fst ?c)"
      by (simp add: map_tl)
    also have "\<dots> = drop (Suc (?n - CACHE_SIZE_LIMIT)) (map ?key qs)"
      by (simp add: K tl_drop drop_Suc)
    finally show ?thesis using False by (simp add: Suc_diff_le)
  qed
  then have "map fst (queryCache (run_queries s (qs @ [p]))) =
      drop (Suc ?n - CACHE_SIZE_LIMIT) (map ?key qs) @ [getCacheKey status q]"
    by (simp add: p run_queries_snoc queryCache_getTodos_miss[OF miss])
  then show ?case by (simp add: p CACHE_SIZE_LIMIT_def)
qed

text \<open>
  C9. In every reachable state the cache holds at most \<open>CACHE_SIZE_LIMIT\<close> = 50 entries.
  A query whose key is not cached appends its entry, after the first entry, the one
  inserted earliest, has been removed when the cache was at the bound; a query whose key
  is cached changes nothing, so reading does not move an entry. Hence after more than 50
  queries with pairwise different filters, started on an empty cache, the keys cached are
  those of the last 50 queries in their order, and the first query's key is not among
  them.
\<close>

theorem cache_bounded_fifo:
  "length (queryCache (run init_store ops)) \<le> CACHE_SIZE_LIMIT \<and> CACHE_SIZE_LIMIT = 50 \<and>
   (map_of (queryCache (run init_store ops)) (getCacheKey status q) = None \<longrightarrow>
      queryCache (fst (getTodos (run init_store ops) status q)) =
        (if length (queryCache (run init_store ops)) < CACHE_SIZE_LIMIT
         then queryCache (run init_store ops) else tl (queryCache (run init_store ops))) @
        [(getCacheKey status q, snd (getTodos (run init_store ops) status q))]) \<and>
   (map_of (queryCache (run init_store ops)) (getCacheKey status q) \<noteq> None \<longrightarrow>
      fst (getTodos (run init_store ops) status q) = run init_store ops) \<and>
   (distinct qs \<and> CACHE_SIZE_LIMIT < length qs \<and> queryCache s = [] \<longrightarrow>
      map fst (queryCache (run_queries s qs)) =
        map (\<lambda>(status, q). getCacheKey status q) (drop (length qs - CACHE_SIZE_LIMIT) qs) \<and>
      map_of (queryCache (run_queries s qs)) (getCacheKey (fst (hd qs)) (snd (hd qs))) = None)"
proof -
  let ?s = "run init_store ops"
  let ?key = "\<lambda>(status, q). getCacheKey status q"
  from store_inv_reachable[of ops] have b: "length (queryCache ?s) \<le> CACHE_SIZE_LIMIT"
    and d: "distinct (map fst (queryCache ?s))"
    by (simp_all add: store_inv_def cache_bounded_def)
  have miss: "queryCache (fst (getTodos ?s status q)) =
        (if length (queryCache ?s) < CACHE_SIZE_LIMIT then queryCache ?s else tl (queryCache ?s)) @
        [(getCacheKey status q, snd (getTodos ?s status q))]"
    if "map_of (queryCache ?s) (getCacheKey status q) = None"
    using queryCache_getTodos_miss[OF that] evict_below[of "queryCache ?s"] evict_full[OF d]
    by (cases "length (queryCache ?s) < CACHE_SIZE_LIMIT") simp_all
  have hit: "fst (getTodos ?s status q) = ?s"
    if "map_of (queryCache ?s) (getCacheKey status q) \<noteq> None"
    using that by (auto simp add: getTodos_hit)
  have run: "map fst (queryCache (run_queries s qs)) = map ?key (drop (length qs - CACHE_SIZE_LIMIT) qs) \<and>
      map_of (queryCache (run_queries s qs)) (getCacheKey (fst (hd qs)) (snd (hd qs))) = None"
    if "distinct qs" "CACHE_SIZE_LIMIT < length qs" "queryCache s = []"
  proof -
    from run_queries_keys[OF that(1,3)] have
      K: "map fst (queryCache (run_queries s qs)) = map ?key (drop (length qs - CACHE_SIZE_LIMIT) qs)"
      by (simp add: drop_map)
    from that(2) obtain p qs' where qs: "qs = p # qs'" by (cases qs) auto
    from that(2) qs obtain m where m: "length qs - CACHE_SIZE_LIMIT = Suc m"
      by (cases "length qs - CACHE_SIZE_LIMIT") auto
    from distinct_keys[OF that(1)] qs have k0: "?key p \<notin> set (map ?key qs')" by simp
    have "set (map ?key (drop m qs')) \<subseteq> set (map ?key qs')"
      by (metis drop_map set_drop_subset)
    with k0 have "?key p \<notin> set (map ?key (drop m qs'))" by blast
    moreover from K qs m have "map fst (queryCache (run_queries s qs)) = map ?key (drop m qs')"
      by simp
    moreover have "getCacheKey (fst (hd qs)) (snd (hd qs)) = ?key p"
      by (simp add: qs case_prod_beta)
    ultimately have "getCacheKey (fst (hd qs)) (snd (hd qs)) \<notin>
        set (map fst (queryCache (run_queries s qs)))"
      by simp
    then have "map_of (queryCache (run_queries s qs)) (getCacheKey (fst (hd qs)) (snd (hd qs))) = None"
      by (simp add: map_of_eq_None_iff)
    with K show ?thesis by blast
  qed
  from b miss hit run show ?thesis by (simp add: CACHE_SIZE_LIMIT_def)
qed

theorem cache_bounded_fifo_witness:
  "distinct (map (\<lambda>n. (''all'', replicate n (CHR ''x''))) [0..<51]) \<and>
   CACHE_SIZE_LIMIT < length (map (\<lambda>n. (''all'', replicate n (CHR ''x''))) [0..<51]) \<and>
   queryCache init_store = [] \<and>
   map_of (queryCache (run_queries init_store (map (\<lambda>n. (''all'', replicate n (CHR ''x''))) [0..<51])))
     (getCacheKey (fst (hd (map (\<lambda>n. (''all'', replicate n (CHR ''x''))) [0..<51])))
        (snd (hd (map (\<lambda>n. (''all'', replicate n (CHR ''x''))) [0..<51])))) = None \<and>
   map_of (queryCache (run init_store [Query ''all'' ''x''])) (getCacheKey ''active'' []) = None \<and>
   queryCache (fst (getTodos (run init_store [Query ''all'' ''x'']) ''active'' [])) =
     queryCache (run init_store [Query ''all'' ''x'']) @
     [(getCacheKey ''active'' [], snd (getTodos (run init_store [Query ''all'' ''x'']) ''active'' []))] \<and>
   map_of (queryCache (run init_store [Query ''all'' ''x''])) (getCacheKey ''all'' ''x'') \<noteq> None \<and>
   fst (getTodos (run init_store [Query ''all'' ''x'']) ''all'' ''x'') = run init_store [Query ''all'' ''x'']"
proof -
  let ?qs = "map (\<lambda>n. (''all'', replicate n (CHR ''x''))) [0..<51]"
  let ?s = "run init_store [Query ''all'' ''x'']"
  have d: "distinct ?qs" by code_simp
  have l: "CACHE_SIZE_LIMIT < length ?qs" by code_simp
  have e: "queryCache init_store = []" by code_simp
  have m: "map_of (queryCache ?s) (getCacheKey ''active'' []) = None" by code_simp
  have n: "map_of (queryCache ?s) (getCacheKey ''all'' ''x'') \<noteq> None" by code_simp
  have b: "length (queryCache ?s) < CACHE_SIZE_LIMIT" by code_simp
  from cache_bounded_fifo[of "[]" "''all''" "[]" ?qs init_store] d l e
  have 1: "map_of (queryCache (run_queries init_store ?qs))
      (getCacheKey (fst (hd ?qs)) (snd (hd ?qs))) = None"
    by blast
  from cache_bounded_fifo[of "[Query ''all'' ''x'']" "''active''" "[]" "[]" init_store] m b
  have 2: "queryCache (fst (getTodos ?s ''active'' [])) =
     queryCache ?s @ [(getCacheKey ''active'' [], snd (getTodos ?s ''active'' []))]"
    by (simp only: if_True simp_thms)
  from cache_bounded_fifo[of "[Query ''all'' ''x'']" "''all''" "''x''" "[]" init_store] n
  have 3: "fst (getTodos ?s ''all'' ''x'') = ?s" by blast
  from d l e 1 m 2 n 3 show ?thesis by (simp only: simp_thms)
qed

section \<open>What a returned array shares with the store\<close>

lemma view_cong:
  "arrs s' ! a = arrs s ! a \<Longrightarrow> \<forall>r\<in>set (arrs s ! a). objs s' ! r = objs s ! r \<Longrightarrow>
   view s' a = view s a"
  by (simp add: view_def deref_def)

lemma heap_ok_arr_refs:
  "heap_ok s \<Longrightarrow> a < length (arrs s) \<Longrightarrow> \<forall>r\<in>set (arrs s ! a). r < length (objs s)"
  by (simp add: heap_ok_alt)

lemma view_apply_op_other:
  assumes "heap_ok s" "a < length (arrs s)" "a \<noteq> todos s" "\<not> is_toggle m"
  shows "view (apply_op s m) a = view s a"
proof (cases m)
  case (Query status q)
  with assms(2) show ?thesis
    by (auto intro!: view_cong simp add: getTodos_def Let_def nth_append split: option.splits)
next
  case (Create ttl descr now)
  with assms(2,3) heap_ok_arr_refs[OF assms(1,2)] show ?thesis
    by (auto intro!: view_cong simp add: createTodo_def Let_def clearCache_def nth_append)
next
  case (Update i u)
  with assms(2,3) heap_ok_arr_refs[OF assms(1,2)] show ?thesis
    by (auto intro!: view_cong simp add: updateTodo_def Let_def clearCache_def nth_append
        split: option.splits sum.splits)
next
  case (Delete i)
  with assms(2,3) show ?thesis
    by (auto intro!: view_cong simp add: deleteTodo_def Let_def clearCache_def
        split: option.splits)
next
  case (BulkDelete ids)
  with assms(2) show ?thesis
    by (auto intro!: view_cong simp add: bulkDeleteTodos_def Let_def clearCache_def nth_append)
next
  case ClearAll
  with assms(2) show ?thesis
    by (auto intro!: view_cong simp add: clearAllTodos_def Let_def clearCache_def nth_append)
qed (use assms(4) in simp_all)

lemma view_toggleTodo:
  assumes "heap_ok s" "a < length (arrs s)"
    and "find (\<lambda>r. id_num (deref s r) = i) (todosArr s) = Some r"
  shows "view (fst (toggleTodo s i)) a =
         map (\<lambda>r'. if r' = r then (deref s r)\<lparr>completed := \<not> completed (deref s r)\<rparr>
                    else deref s r') (arrs s ! a)"
  using assms(3) heap_ok_arr_refs[OF assms(1,2)]
  by (auto simp add: toggleTodo_def Let_def clearCache_def view_def deref_def nth_list_update)

lemma getTodos_ref:
  assumes "heap_ok s"
  shows "snd (getTodos s status q) \<noteq> todos (fst (getTodos s status q)) \<and>
         snd (getTodos s status q) < length (arrs (fst (getTodos s status q)))"
proof (cases "map_of (queryCache s) (getCacheKey status q)")
  case None
  with heap_ok_todos[OF assms] show ?thesis by (simp add: getTodos_def Let_def)
next
  case (Some a)
  then have "(getCacheKey status q, a) \<in> set (queryCache s)" by (rule map_of_SomeD)
  with assms have "a < length (arrs s) \<and> a \<noteq> todos s" by (auto simp add: heap_ok_alt)
  with Some show ?thesis by (simp add: getTodos_hit)
qed

lemma records_caller_write: "a \<noteq> todos s \<Longrightarrow> records (caller_write s a xs) = records s"
  by (simp add: caller_write_def records_alt)

text \<open>An array that is not the collection's stays allocated, stays apart and is never written.\<close>

lemma other_array_apply_op:
  assumes "heap_ok s" "a < length (arrs s)" "a \<noteq> todos s"
  shows "a < length (arrs (apply_op s m)) \<and> a \<noteq> todos (apply_op s m) \<and>
         arrs (apply_op s m) ! a = arrs s ! a"
proof (cases m)
  case (Query status q)
  with assms show ?thesis
    by (auto simp add: getTodos_def Let_def nth_append split: option.splits)
next
  case (Create ttl descr now)
  with assms show ?thesis by (auto simp add: createTodo_def Let_def clearCache_def)
next
  case (Update i u)
  with assms show ?thesis
    by (auto simp add: updateTodo_def Let_def clearCache_def split: option.splits sum.splits)
next
  case (Toggle i)
  with assms show ?thesis
    by (auto simp add: toggleTodo_def Let_def clearCache_def split: option.splits)
next
  case (Delete i)
  with assms show ?thesis
    by (auto simp add: deleteTodo_def Let_def clearCache_def split: option.splits)
next
  case (BulkToggle ids)
  with assms show ?thesis
    by (auto simp add: bulkToggleTodos_def Let_def clearCache_def split: prod.splits)
next
  case (BulkDelete ids)
  with assms show ?thesis
    by (auto simp add: bulkDeleteTodos_def Let_def clearCache_def nth_append)
next
  case Stats
  with assms show ?thesis by simp
next
  case ClearAll
  with assms show ?thesis
    by (auto simp add: clearAllTodos_def Let_def clearCache_def nth_append)
qed

lemma other_array_run:
  assumes "heap_ok s" "a < length (arrs s)" "a \<noteq> todos s"
  shows "a < length (arrs (run s ops)) \<and> a \<noteq> todos (run s ops) \<and>
         arrs (run s ops) ! a = arrs s ! a"
proof (induction ops rule: rev_induct)
  case Nil
  from assms show ?case by (simp add: run_def)
next
  case (snoc m ops)
  from other_array_apply_op[OF heap_ok_run[OF assms(1), of ops], of a m] snoc
  show ?case by (simp add: run_snoc)
qed

lemma view_run_other:
  assumes "heap_ok s" "a < length (arrs s)" "a \<noteq> todos s" "\<forall>m\<in>set ops. \<not> is_toggle m"
  shows "view (run s ops) a = view s a"
  using assms(4)
proof (induction ops rule: rev_induct)
  case Nil
  show ?case by (simp add: run_def)
next
  case (snoc m ops)
  then have IH: "view (run s ops) a = view s a" and m: "\<not> is_toggle m" by simp_all
  from other_array_run[OF assms(1,2,3), of ops]
  have "a < length (arrs (run s ops))" "a \<noteq> todos (run s ops)" by simp_all
  from view_apply_op_other[OF heap_ok_run[OF assms(1)] this m] IH
  show ?case by (simp add: run_snoc)
qed

lemma view_bulkToggleTodos:
  assumes "heap_ok s" "a < length (arrs s)"
  shows "view (fst (bulkToggleTodos s ids)) a =
         map (\<lambda>r. if r \<in> set (todosArr s) \<and> id_num (deref s r) \<in> set ids
                   then (deref s r)\<lparr>completed := \<not> completed (deref s r)\<rparr> else deref s r)
           (arrs s ! a)"
proof -
  obtain os upd where f: "fold (bulkToggle_step (set ids)) (todosArr s) (objs s, []) = (os, upd)"
    by (cases "fold (bulkToggle_step (set ids)) (todosArr s) (objs s, [])")
  from assms(1) have d: "distinct (todosArr s)" and b: "\<forall>r\<in>set (todosArr s). r < length (objs s)"
    by (simp_all add: heap_ok_alt todosArr_def heap_ok_refs)
  note F = bulkToggle_fold[OF d b f]
  have "view (fst (bulkToggleTodos s ids)) a = map (\<lambda>r. os ! r) (arrs s ! a)"
    using f by (simp add: bulkToggleTodos_def Let_def clearCache_def view_def deref_eq)
  also have "\<dots> = map (\<lambda>r. if r \<in> set (todosArr s) \<and> id_num (deref s r) \<in> set ids
                   then (deref s r)\<lparr>completed := \<not> completed (deref s r)\<rparr> else deref s r)
           (arrs s ! a)"
    using F heap_ok_arr_refs[OF assms] by (intro map_cong) (simp_all add: deref_def)
  finally show ?thesis .
qed

lemma filters_refs:
  "search_filter s q (status_filter s status xs) =
   filter (\<lambda>r. matches_status status (deref s r) \<and> matches_text q (deref s r)) xs"
proof -
  have st: "status_filter s status xs = filter (\<lambda>r. matches_status status (deref s r)) xs"
    by (auto simp add: status_filter_def matches_status_def Let_def)
  have "search_filter s q ys = filter (\<lambda>r. matches_text q (deref s r)) ys" for ys
  proof (cases "q = []")
    case True
    then show ?thesis by (simp add: search_filter_def matches_text_def)
  next
    case False
    then have "toLowerCase q \<noteq> []" by (simp add: toLowerCase_def)
    then have d: "(description t \<noteq> [] \<and> sublist (toLowerCase q) (toLowerCase (description t)))
        \<longleftrightarrow> sublist (toLowerCase q) (toLowerCase (description t))" for t
      by (auto simp add: toLowerCase_def)
    from False show ?thesis
      by (simp add: search_filter_def matches_text_def Let_def includes_str_sublist d)
  qed
  with st show ?thesis by (simp add: conj_commute)
qed

lemma getTodos_shares:
  assumes "store_inv s"
  shows "arrs (fst (getTodos s status q)) ! snd (getTodos s status q) =
         search_filter s q (status_filter s status (todosArr s))"
proof (cases "map_of (queryCache s) (getCacheKey status q)")
  case None
  then show ?thesis by (simp add: getTodos_def Let_def)
next
  case (Some a)
  with assms show ?thesis by (simp add: getTodos_hit store_inv_def cache_ok_def)
qed

lemma toggled_differs: "t\<lparr>completed := \<not> completed t\<rparr> \<noteq> t"
proof
  assume "t\<lparr>completed := \<not> completed t\<rparr> = t"
  then have "completed (t\<lparr>completed := \<not> completed t\<rparr>) = completed t" by (rule arg_cong)
  then show False by simp
qed

lemma map_differs: "x \<in> set xs \<Longrightarrow> f x \<noteq> g x \<Longrightarrow> map f xs \<noteq> map g xs"
  by (induction xs) auto

text \<open>
  C7, as the code has it. In a state that the invariants of the store hold of, the array
  that \<open>getTodos\<close> returns, computed or taken from the cache, is a shallow copy. It is not
  the array of the collection, and its elements are the references of the collection that
  pass the filter: the record objects of the store themselves. Whatever the caller writes
  into it leaves the records of the collection and the counter as they are. Whatever
  calls of the store follow, none writes the array, and when none of them is
  \<open>toggleTodo\<close> or \<open>bulkToggleTodos\<close> the array holds the same records as when it was
  returned. The toggles write the objects in place: after any later calls, \<open>toggleTodo\<close>
  changes the array at every place that holds the object it finds, so the array differs
  when it holds that object, and \<open>bulkToggleTodos\<close> changes it at every place that holds
  an object of the collection whose id is listed.
\<close>

theorem query_result_shallow_copy:
  "store_inv s \<Longrightarrow>
   (case getTodos s status q of
      (s1, a) \<Rightarrow>
        a \<noteq> todos s1 \<and> a < length (arrs s1) \<and> records s1 = records s \<and>
        arrs s1 ! a =
          filter (\<lambda>r. matches_status status (deref s1 r) \<and> matches_text q (deref s1 r))
            (todosArr s1) \<and>
        records (caller_write s1 a xs) = records s1 \<and>
        idCounter (caller_write s1 a xs) = idCounter s1 \<and>
        arrs (run s1 ops) ! a = arrs s1 ! a \<and>
        ((\<forall>m\<in>set ops. \<not> is_toggle m) \<longrightarrow> view (run s1 ops) a = view s1 a) \<and>
        (find (\<lambda>r. id_num (deref (run s1 ops) r) = i) (todosArr (run s1 ops)) = Some r \<longrightarrow>
           view (fst (toggleTodo (run s1 ops) i)) a =
             map (\<lambda>r'. if r' = r
                        then (deref (run s1 ops) r)\<lparr>completed := \<not> completed (deref (run s1 ops) r)\<rparr>
                        else deref (run s1 ops) r') (arrs s1 ! a) \<and>
           (r \<in> set (arrs s1 ! a) \<longrightarrow>
              view (fst (toggleTodo (run s1 ops) i)) a \<noteq> view (run s1 ops) a)) \<and>
        view (fst (bulkToggleTodos (run s1 ops) ids)) a =
          map (\<lambda>r'. if r' \<in> set (todosArr (run s1 ops)) \<and> id_num (deref (run s1 ops) r') \<in> set ids
                     then (deref (run s1 ops) r')\<lparr>completed := \<not> completed (deref (run s1 ops) r')\<rparr>
                     else deref (run s1 ops) r') (arrs s1 ! a))"
proof -
  assume inv: "store_inv s"
  then have h: "heap_ok s" by (simp add: store_inv_def)
  obtain s1 a where g: "getTodos s status q = (s1, a)" by (cases "getTodos s status q")
  then have s1: "s1 = fst (getTodos s status q)" and a: "a = snd (getTodos s status q)"
    by simp_all
  let ?s2 = "run s1 ops"
  from h have h1: "heap_ok s1" unfolding s1 by (rule heap_ok_getTodos)
  then have h2: "heap_ok ?s2" by (rule heap_ok_run)
  from getTodos_ref[OF h, of status q] have r: "a \<noteq> todos s1" "a < length (arrs s1)"
    by (simp_all add: s1 a)
  note o = other_array_run[OF h1 r(2,1), of ops]
  have rec: "records s1 = records s" unfolding s1 using h by (rule records_getTodos)
  have "objs s1 = objs s" "todosArr s1 = todosArr s"
    unfolding s1 using h by (simp_all add: objs_getTodos todosArr_getTodos)
  then have sh: "arrs s1 ! a =
      filter (\<lambda>r. matches_status status (deref s1 r) \<and> matches_text q (deref s1 r)) (todosArr s1)"
    using getTodos_shares[OF inv, of status q] filters_refs[of s q status "todosArr s"]
    by (simp add: s1 a deref_def)
  have cw: "records (caller_write s1 a xs) = records s1"
    using r(1) by (rule records_caller_write)
  have ic: "idCounter (caller_write s1 a xs) = idCounter s1"
    by (simp add: caller_write_def)
  have fr: "view ?s2 a = view s1 a" if "\<forall>m\<in>set ops. \<not> is_toggle m"
    using h1 r(2,1) that by (rule view_run_other)
  have tg: "view (fst (toggleTodo ?s2 i)) a =
             map (\<lambda>r'. if r' = r
                        then (deref ?s2 r)\<lparr>completed := \<not> completed (deref ?s2 r)\<rparr>
                        else deref ?s2 r') (arrs s1 ! a)"
    if "find (\<lambda>r. id_num (deref ?s2 r) = i) (todosArr ?s2) = Some r"
    using view_toggleTodo[OF h2 _ that, of a] o by simp
  have td: "view (fst (toggleTodo ?s2 i)) a \<noteq> view ?s2 a"
    if "find (\<lambda>r. id_num (deref ?s2 r) = i) (todosArr ?s2) = Some r" "r \<in> set (arrs s1 ! a)"
  proof -
    have "map (\<lambda>r'. if r' = r
                        then (deref ?s2 r)\<lparr>completed := \<not> completed (deref ?s2 r)\<rparr>
                        else deref ?s2 r') (arrs s1 ! a) \<noteq> map (deref ?s2) (arrs s1 ! a)"
      using that(2) by (rule map_differs) (simp add: toggled_differs)
    with tg[OF that(1)] o show ?thesis by (simp add: view_def)
  qed
  have bt: "view (fst (bulkToggleTodos ?s2 ids)) a =
          map (\<lambda>r'. if r' \<in> set (todosArr ?s2) \<and> id_num (deref ?s2 r') \<in> set ids
                     then (deref ?s2 r')\<lparr>completed := \<not> completed (deref ?s2 r')\<rparr>
                     else deref ?s2 r') (arrs s1 ! a)"
    using view_bulkToggleTodos[OF h2, of a ids] o by simp
  from r rec sh cw ic o fr tg td bt show ?thesis unfolding g by simp
qed

theorem query_result_shallow_copy_witness:
  "store_inv (run init_store [Create ''Buy milk'' '''' ''t0'', Create ''Walk'' '''' ''t1'', Query ''all'' ''milk'']) \<and>
   snd (getTodos (run init_store [Create ''Buy milk'' '''' ''t0'', Create ''Walk'' '''' ''t1'', Query ''all'' ''milk''])
       ''all'' ''milk'') \<noteq>
     todos (fst (getTodos (run init_store [Create ''Buy milk'' '''' ''t0'', Create ''Walk'' '''' ''t1'',
       Query ''all'' ''milk'']) ''all'' ''milk'')) \<and>
   arrs (fst (getTodos (run init_store [Create ''Buy milk'' '''' ''t0'', Create ''Walk'' '''' ''t1'',
       Query ''all'' ''milk'']) ''all'' ''milk'')) !
     snd (getTodos (run init_store [Create ''Buy milk'' '''' ''t0'', Create ''Walk'' '''' ''t1'', Query ''all'' ''milk''])
       ''all'' ''milk'') = [0] \<and>
   todosArr (fst (getTodos (run init_store [Create ''Buy milk'' '''' ''t0'', Create ''Walk'' '''' ''t1'',
       Query ''all'' ''milk'']) ''all'' ''milk'')) = [0, 1] \<and>
   view (run (fst (getTodos (run init_store [Create ''Buy milk'' '''' ''t0'', Create ''Walk'' '''' ''t1'',
       Query ''all'' ''milk'']) ''all'' ''milk''))
       [Update 1 \<lparr>u_title = Some ''Buy tea'', u_description = None, u_completed = Some True\<rparr>, Delete 1,
        Create ''Run'' '''' ''t2'', Query ''active'' '''', BulkDelete [2], ClearAll])
     (snd (getTodos (run init_store [Create ''Buy milk'' '''' ''t0'', Create ''Walk'' '''' ''t1'', Query ''all'' ''milk''])
       ''all'' ''milk'')) =
     view (fst (getTodos (run init_store [Create ''Buy milk'' '''' ''t0'', Create ''Walk'' '''' ''t1'',
       Query ''all'' ''milk'']) ''all'' ''milk''))
     (snd (getTodos (run init_store [Create ''Buy milk'' '''' ''t0'', Create ''Walk'' '''' ''t1'', Query ''all'' ''milk''])
       ''all'' ''milk'')) \<and>
   view (fst (toggleTodo (run (fst (getTodos (run init_store [Create ''Buy milk'' '''' ''t0'',
       Create ''Walk'' '''' ''t1'', Query ''all'' ''milk'']) ''all'' ''milk'')) [Query ''active'' '''']) 1))
     (snd (getTodos (run init_store [Create ''Buy milk'' '''' ''t0'', Create ''Walk'' '''' ''t1'', Query ''all'' ''milk''])
       ''all'' ''milk'')) \<noteq>
     view (run (fst (getTodos (run init_store [Create ''Buy milk'' '''' ''t0'', Create ''Walk'' '''' ''t1'',
       Query ''all'' ''milk'']) ''all'' ''milk'')) [Query ''active'' ''''])
     (snd (getTodos (run init_store [Create ''Buy milk'' '''' ''t0'', Create ''Walk'' '''' ''t1'', Query ''all'' ''milk''])
       ''all'' ''milk''))"
proof -
  let ?s = "run init_store [Create ''Buy milk'' '''' ''t0'', Create ''Walk'' '''' ''t1'', Query ''all'' ''milk'']"
  let ?s1 = "fst (getTodos ?s ''all'' ''milk'')"
  let ?a = "snd (getTodos ?s ''all'' ''milk'')"
  let ?ops = "[Update 1 \<lparr>u_title = Some ''Buy tea'', u_description = None, u_completed = Some True\<rparr>,
        Delete 1, Create ''Run'' '''' ''t2'', Query ''active'' '''', BulkDelete [2], ClearAll]"
  have inv: "store_inv ?s" by (rule store_inv_reachable)
  have t: "\<forall>m\<in>set ?ops. \<not> is_toggle m" by simp
  have e: "arrs ?s1 ! ?a = [0]" by code_simp
  have c: "todosArr ?s1 = [0, 1]" by code_simp
  have f: "find (\<lambda>r. id_num (deref (run ?s1 [Query ''active'' '''']) r) = 1)
      (todosArr (run ?s1 [Query ''active'' ''''])) = Some 0"
    by code_simp
  from e have m: "0 \<in> set (arrs ?s1 ! ?a)" by simp
  note T = query_result_shallow_copy[OF inv, where status = "''all''" and q = "''milk''",
      unfolded case_prod_beta]
  from T[where ops = ?ops] have 1: "?a \<noteq> todos ?s1" by blast
  from T[where ops = ?ops] t have 2: "view (run ?s1 ?ops) ?a = view ?s1 ?a" by blast
  from T[where ops = "[Query ''active'' '''']" and i = 1 and r = 0] f m
  have 3: "view (fst (toggleTodo (run ?s1 [Query ''active'' '''']) 1)) ?a \<noteq>
      view (run ?s1 [Query ''active'' '''']) ?a"
    by blast
  from inv 1 e c 2 3 show ?thesis by (simp only: simp_thms)
qed

text \<open>
  The claim C7 as it is worded fails on both counts. A toggle after the query changes
  what the array returned before holds. And the array returned is the cached one: the
  same query again returns the same array, so a caller that empties the array it got
  changes the result handed out before, and the cache then serves the emptied array
  although the collection still holds the record.
\<close>

theorem defensive_copy_counterexample:
  "view (fst (toggleTodo (fst (getTodos (run init_store [Create ''Buy milk'' '''' ''t0'']) ''all'' '''')) 1))
       (snd (getTodos (run init_store [Create ''Buy milk'' '''' ''t0'']) ''all'' '''')) \<noteq>
     view (fst (getTodos (run init_store [Create ''Buy milk'' '''' ''t0'']) ''all'' ''''))
       (snd (getTodos (run init_store [Create ''Buy milk'' '''' ''t0'']) ''all'' '''')) \<and>
   snd (getTodos (fst (getTodos (run init_store [Create ''Buy milk'' '''' ''t0'']) ''all'' '''')) ''all'' '''') =
     snd (getTodos (run init_store [Create ''Buy milk'' '''' ''t0'']) ''all'' '''') \<and>
   view (caller_write (fst (getTodos (run init_store [Create ''Buy milk'' '''' ''t0'']) ''all'' ''''))
         (snd (getTodos (run init_store [Create ''Buy milk'' '''' ''t0'']) ''all'' '''')) [])
       (snd (getTodos (run init_store [Create ''Buy milk'' '''' ''t0'']) ''all'' '''')) \<noteq>
     view (fst (getTodos (run init_store [Create ''Buy milk'' '''' ''t0'']) ''all'' ''''))
       (snd (getTodos (run init_store [Create ''Buy milk'' '''' ''t0'']) ''all'' '''')) \<and>
   query_view (caller_write (fst (getTodos (run init_store [Create ''Buy milk'' '''' ''t0'']) ''all'' ''''))
         (snd (getTodos (run init_store [Create ''Buy milk'' '''' ''t0'']) ''all'' '''')) []) ''all'' '''' \<noteq>
     records (caller_write (fst (getTodos (run init_store [Create ''Buy milk'' '''' ''t0'']) ''all'' ''''))
         (snd (getTodos (run init_store [Create ''Buy milk'' '''' ''t0'']) ''all'' '''')) [])"
  by code_simp

end
